theory Spec2Isabelle
  imports Main "HOL-Library.Sublist"
begin

section \<open>Data model\<close>

text \<open>
  Digests and tags are JavaScript strings. A package version is the object the GitHub
  Packages API returns: \<open>id\<close>, \<open>name\<close> (the digest), \<open>metadata.container.tags\<close> and
  \<open>updated_at\<close>. A manifest is an untyped JSON object; the code only tests whether its
  \<open>manifests\<close> and \<open>layers\<close> properties are present, so both are optional fields.
\<close>

type_synonym digest = string
type_synonym tag = string

record package =
  pkg_id :: nat
  name :: digest
  tags :: "tag list"
  updated_at :: "string option"

record platformInfo =
  architecture :: "string option"
  variant :: "string option"

record descriptor =
  digest :: digest
  platform :: "platformInfo option"
  artifactType :: "string option"

record layer =
  mediaType :: string

record manifest =
  manifests :: "descriptor list option"
  layers :: "layer list option"

text \<open>
  Exceptions are values. \<open>TypeError\<close> is what JavaScript throws when a property of
  \<open>undefined\<close> is read; \<open>ApiError\<close> is a failed call to the registry or the package API.
\<close>

datatype error = TypeError | ApiError string

text \<open>The mutating calls a component issues against its collaborators, in order.\<close>

datatype call =
    PutManifest tag manifest bool
  | LoadPackages bool
  | DeletePackageVersion nat digest "tag list" "string option"

text \<open>
  Modelled from the spec: the Package Index (package-repo.ts) and the Registry
  (registry.ts) are not part of the source tree; section 6 of the specification gives
  their contracts. They are taken as parameters: a record of operations over an
  arbitrary world \<open>'w\<close> (the remote store together with the loaded snapshot). Lookups
  read the world, the three mutating calls return a new world or fail.
  \<open>getDigests\<close> and \<open>getTags\<close> return a fresh collection in iteration order.
\<close>

record 'w env =
  getManifestByDigest :: "'w \<Rightarrow> digest \<Rightarrow> error + manifest"
  putManifest :: "tag \<Rightarrow> manifest \<Rightarrow> bool \<Rightarrow> 'w \<Rightarrow> error + 'w"
  loadPackages :: "bool \<Rightarrow> 'w \<Rightarrow> error + 'w"
  getDigests :: "'w \<Rightarrow> digest list"
  getTags :: "'w \<Rightarrow> tag list"
  getDigestByTag :: "'w \<Rightarrow> tag \<Rightarrow> digest option"
  getIdByDigest :: "'w \<Rightarrow> digest \<Rightarrow> nat option"
  getPackageByDigest :: "'w \<Rightarrow> digest \<Rightarrow> package option"
  deletePackageVersion :: "nat \<Rightarrow> digest \<Rightarrow> tag list \<Rightarrow> string option \<Rightarrow> 'w \<Rightarrow> error + 'w"

subsection \<open>JavaScript sets and strings\<close>

text \<open>
  A JavaScript \<open>Set\<close> iterates in insertion order and holds no duplicates: a list with
  \<open>js_add\<close> and \<open>js_delete\<close>. A string is truthy when it is defined and not empty, a number when it is defined
  and not zero.
\<close>

definition js_add :: "'a \<Rightarrow> 'a list \<Rightarrow> 'a list" where
  "js_add x xs = (if x \<in> set xs then xs else xs @ [x])"

definition js_delete :: "'a \<Rightarrow> 'a list \<Rightarrow> 'a list" where
  "js_delete x xs = removeAll x xs"

definition idTruthy :: "nat option \<Rightarrow> bool" where
  "idTruthy i = (case i of None \<Rightarrow> False | Some n \<Rightarrow> n \<noteq> 0)"

text \<open>\<open>s.split(c)\<close> for a one-character separator.\<close>

fun splitOn :: "char \<Rightarrow> string \<Rightarrow> string list" where
  "splitOn c [] = [[]]"
| "splitOn c (x # xs) =
     (if x = c then [] # splitOn c xs
      else (case splitOn c xs of
              [] \<Rightarrow> [[x]]
            | w # ws \<Rightarrow> (x # w) # ws))"

text \<open>\<open>s.replace(pat, rep)\<close> with a string pattern replaces the first occurrence only.\<close>

fun replaceFirst :: "string \<Rightarrow> string \<Rightarrow> string \<Rightarrow> string" where
  "replaceFirst pat rep [] = (if pat = [] then rep else [])"
| "replaceFirst pat rep (c # cs) =
     (if prefix pat (c # cs) then rep @ drop (length pat) (c # cs)
      else c # replaceFirst pat rep cs)"

subsection \<open>Iteration\<close>

text \<open>
  \<open>for (const x of xs) { ... }\<close> over a collection that the body does not change: the
  body runs on each element in order, threading the local variables \<open>acc\<close> and the
  state; an exception ends the loop. \<open>forEachCut\<close> is the same loop around a body that
  may itself be cut off (\<open>None\<close>).
\<close>

fun forEach ::
  "('a \<Rightarrow> 'b \<Rightarrow> 's \<Rightarrow> (error + 'b) \<times> 's) \<Rightarrow> 'a list \<Rightarrow> 'b \<Rightarrow> 's \<Rightarrow> (error + 'b) \<times> 's" where
  "forEach body [] acc st = (Inr acc, st)"
| "forEach body (x # xs) acc st =
     (case body x acc st of
        (Inl e, st') \<Rightarrow> (Inl e, st')
      | (Inr acc', st') \<Rightarrow> forEach body xs acc' st')"

fun forEachCut ::
  "('a \<Rightarrow> 'b \<Rightarrow> 's \<Rightarrow> ((error + 'b) \<times> 's) option) \<Rightarrow> 'a list \<Rightarrow> 'b \<Rightarrow> 's \<Rightarrow>
   ((error + 'b) \<times> 's) option" where
  "forEachCut body [] acc st = Some (Inr acc, st)"
| "forEachCut body (x # xs) acc st =
     (case body x acc st of
        None \<Rightarrow> None
      | Some (Inl e, st') \<Rightarrow> Some (Inl e, st')
      | Some (Inr acc', st') \<Rightarrow> forEachCut body xs acc' st')"

section \<open>Manifest Analyzer\<close>

text \<open>\<open>ManifestAnalyzer.buildLabel\<close>: the label of a child descriptor.\<close>

definition buildLabel :: "'w env \<Rightarrow> 'w \<Rightarrow> descriptor \<Rightarrow> error + string" where
  "buildLabel env w imageManifest =
     (case platform imageManifest of
        Some pf \<Rightarrow>
          (let label = (case architecture pf of
                          None \<Rightarrow> []
                        | Some a \<Rightarrow> a)
           in if label \<noteq> ''unknown'' then
                Inr (''architecture: '' @
                     (case variant pf of
                        None \<Rightarrow> label
                      | Some v \<Rightarrow> if v = [] then label else label @ ''/'' @ v))
              else
                (case getManifestByDigest env w (digest imageManifest) of
                   Inl e \<Rightarrow> Inl e
                 | Inr m \<Rightarrow>
                     (case layers m of
                        None \<Rightarrow> Inr label
                      | Some [] \<Rightarrow> Inl TypeError
                      | Some (l # ls) \<Rightarrow>
                          if mediaType l = ''application/vnd.in-toto+json''
                          then Inr ''application/vnd.in-toto+json''
                          else Inr label)))
      | None \<Rightarrow>
          (case artifactType imageManifest of
             None \<Rightarrow> Inr []
           | Some a \<Rightarrow>
               if a = [] then Inr []
               else if prefix ''application/vnd.dev.sigstore.bundle'' a
               then Inr ''sigstore attestation''
               else Inr a))"

text \<open>
  \<open>ManifestAnalyzer.loadDigestUsedByMap\<close>. The loop iterates the set \<open>digests\<close> and
  deletes from it while iterating: a JavaScript set iterator skips an entry deleted
  before it is reached. \<open>pending\<close> are the entries of the original set not yet
  reached, \<open>digests\<close> the current content of the set.
\<close>

fun recordChildren ::
  "digest \<Rightarrow> descriptor list \<Rightarrow> digest list \<times> (digest \<rightharpoonup> digest list) \<Rightarrow>
   digest list \<times> (digest \<rightharpoonup> digest list)" where
  "recordChildren parent [] (digests, usedBy) = (digests, usedBy)"
| "recordChildren parent (imageManifest # rest) (digests, usedBy) =
     (if digest imageManifest \<in> set digests then
        recordChildren parent rest
          (js_delete (digest imageManifest) digests,
           usedBy(digest imageManifest \<mapsto>
             js_add parent (case usedBy (digest imageManifest) of
                              None \<Rightarrow> []
                            | Some parents \<Rightarrow> parents)))
      else recordChildren parent rest (digests, usedBy))"

fun loadLoop ::
  "'w env \<Rightarrow> 'w \<Rightarrow> digest list \<Rightarrow> digest list \<Rightarrow> (digest \<rightharpoonup> digest list) \<Rightarrow>
   error + (digest \<rightharpoonup> digest list)" where
  "loadLoop env w [] digests usedBy = Inr usedBy"
| "loadLoop env w (d # pending) digests usedBy =
     (if d \<notin> set digests then loadLoop env w pending digests usedBy
      else
        (case getManifestByDigest env w d of
           Inl e \<Rightarrow> Inl e
         | Inr m \<Rightarrow>
             (case manifests m of
                None \<Rightarrow> loadLoop env w pending digests usedBy
              | Some ms \<Rightarrow>
                  (case recordChildren d ms (digests, usedBy) of
                     (digests', usedBy') \<Rightarrow> loadLoop env w pending digests' usedBy'))))"

definition loadDigestUsedByMap :: "'w env \<Rightarrow> 'w \<Rightarrow> error + (digest \<rightharpoonup> digest list)" where
  "loadDigestUsedByMap env w =
     loadLoop env w (getDigests env w) (getDigests env w) Map.empty"

text \<open>
  \<open>ManifestAnalyzer.primeManifests\<close>: fetches what the deletion will need. It changes
  nothing, but a failed fetch aborts the deletion before it starts.
\<close>

fun primeChildren :: "'w env \<Rightarrow> 'w \<Rightarrow> digest list \<Rightarrow> descriptor list \<Rightarrow> error + unit" where
  "primeChildren env w digests [] = Inr ()"
| "primeChildren env w digests (imageManifest # rest) =
     (if digest imageManifest \<in> set digests then
        (case buildLabel env w imageManifest of
           Inl e \<Rightarrow> Inl e
         | Inr label \<Rightarrow> primeChildren env w digests rest)
      else primeChildren env w digests rest)"

fun primeReferrers :: "'w env \<Rightarrow> 'w \<Rightarrow> digest list \<Rightarrow> string \<Rightarrow> tag list \<Rightarrow> error + unit" where
  "primeReferrers env w digests digestTag [] = Inr ()"
| "primeReferrers env w digests digestTag (t # rest) =
     (if prefix digestTag t then
        (case getDigestByTag env w t of
           None \<Rightarrow> primeReferrers env w digests digestTag rest
         | Some tagDigest \<Rightarrow>
             if tagDigest = [] then primeReferrers env w digests digestTag rest
             else
               (case getManifestByDigest env w tagDigest of
                  Inl e \<Rightarrow> Inl e
                | Inr tagManifest \<Rightarrow>
                    (case (case manifests tagManifest of
                             None \<Rightarrow> Inr ()
                           | Some ms \<Rightarrow> primeChildren env w digests ms) of
                       Inl e \<Rightarrow> Inl e
                     | Inr u \<Rightarrow> primeReferrers env w digests digestTag rest)))
      else primeReferrers env w digests digestTag rest)"

fun primeLoop :: "'w env \<Rightarrow> 'w \<Rightarrow> digest list \<Rightarrow> digest list \<Rightarrow> error + unit" where
  "primeLoop env w digests [] = Inr ()"
| "primeLoop env w digests (d # rest) =
     (case getManifestByDigest env w d of
        Inl e \<Rightarrow> Inl e
      | Inr m \<Rightarrow>
          (case (case manifests m of
                   None \<Rightarrow> Inr ()
                 | Some ms \<Rightarrow> primeChildren env w digests ms) of
             Inl e \<Rightarrow> Inl e
           | Inr u \<Rightarrow>
               (case primeReferrers env w digests
                       (replaceFirst ''sha256:'' ''sha256-'' d) (getTags env w) of
                  Inl e \<Rightarrow> Inl e
                | Inr u' \<Rightarrow> primeLoop env w digests rest)))"

definition primeManifests :: "'w env \<Rightarrow> 'w \<Rightarrow> digest list \<Rightarrow> error + unit" where
  "primeManifests env w deleteSet = primeLoop env w (getDigests env w) deleteSet"

section \<open>Image Deleter\<close>

text \<open>
  The state of one \<open>ImageDeleter\<close> together with the world it acts on: the
  session-scoped \<open>deleted\<close> set, the \<open>digestUsedBy\<close> map handed over by the
  orchestrator, and the log of mutating calls issued so far. A thrown exception leaves
  the mutations made before it in place, so every operation returns the state next to
  its result or error.
\<close>

record 'w session =
  world :: 'w
  calls :: "call list"
  deleted :: "digest list"
  digestUsedBy :: "digest \<rightharpoonup> digest list"

text \<open>
  \<open>ImageDeleter.performUntagging\<close>. \<open>untagTag\<close> is the body of the inner loop: one tag
  of one entry of the untag operations. The untag operations are a \<open>Map\<close> from digest
  to tag array, iterated in insertion order.
\<close>

definition untagTag ::
  "'w env \<Rightarrow> digest \<Rightarrow> tag \<Rightarrow> unit \<Rightarrow> 'w session \<Rightarrow> (error + unit) \<times> 'w session" where
  "untagTag env manifestDigest t u st =
     (case getPackageByDigest env (world st) manifestDigest of
        None \<Rightarrow> (Inl TypeError, st)
      | Some ghPackage \<Rightarrow>
          if length (tags ghPackage) > 1 then
            (case getManifestByDigest env (world st) manifestDigest of
               Inl e \<Rightarrow> (Inl e, st)
             | Inr m \<Rightarrow>
                 (let isIndex = (manifests m \<noteq> None);
                      newManifest = (if isIndex then m\<lparr>manifests := Some []\<rparr>
                                     else m\<lparr>layers := Some []\<rparr>);
                      st1 = st\<lparr>calls := calls st @ [PutManifest t newManifest isIndex]\<rparr>
                  in case putManifest env t newManifest isIndex (world st) of
                       Inl e \<Rightarrow> (Inl e, st1)
                     | Inr w1 \<Rightarrow>
                         (let st2 = st1\<lparr>world := w1,
                                         calls := calls st1 @ [LoadPackages False]\<rparr>
                          in case loadPackages env False w1 of
                               Inl e \<Rightarrow> (Inl e, st2)
                             | Inr w2 \<Rightarrow>
                                 (let st3 = st2\<lparr>world := w2\<rparr>
                                  in case getDigestByTag env w2 t of
                                       None \<Rightarrow> (Inr (), st3)
                                     | Some untaggedDigest \<Rightarrow>
                                         if untaggedDigest = [] then (Inr (), st3)
                                         else
                                           (case getIdByDigest env w2 untaggedDigest of
                                              None \<Rightarrow> (Inr (), st3)
                                            | Some i \<Rightarrow>
                                                if i = 0 then (Inr (), st3)
                                                else
                                                  (let st4 = st3\<lparr>calls := calls st3 @
                                                          [DeletePackageVersion i untaggedDigest
                                                             [t] None]\<rparr>
                                                   in case deletePackageVersion env i
                                                             untaggedDigest [t] None w2 of
                                                        Inl e \<Rightarrow> (Inl e, st4)
                                                      | Inr w3 \<Rightarrow>
                                                          (Inr (), st4\<lparr>world := w3\<rparr>)))))))
          else (Inr (), st))"

definition untagEntry ::
  "'w env \<Rightarrow> digest \<times> tag list \<Rightarrow> unit \<Rightarrow> 'w session \<Rightarrow> (error + unit) \<times> 'w session" where
  "untagEntry env entry u st = forEach (untagTag env (fst entry)) (snd entry) u st"

definition performUntagging ::
  "'w env \<Rightarrow> (digest \<times> tag list) list \<Rightarrow> 'w session \<Rightarrow> (error + bool) \<times> 'w session" where
  "performUntagging env untagOperations st =
     (if untagOperations = [] then (Inr False, st)
      else
        (case forEach (untagEntry env) untagOperations () st of
           (Inl e, st') \<Rightarrow> (Inl e, st')
         | (Inr u, st') \<Rightarrow> (Inr True, st')))"

text \<open>
  The body of the loop over \<open>manifest.manifests\<close> in \<open>deleteImage\<close>: one child
  descriptor of the image \<open>parent\<close>. The label is computed before the delete call is
  issued, as argument evaluation does.
\<close>

definition deleteChild ::
  "'w env \<Rightarrow> digest \<Rightarrow> descriptor \<Rightarrow> nat \<Rightarrow> 'w session \<Rightarrow> (error + nat) \<times> 'w session" where
  "deleteChild env parent imageManifest imagesDeleted st =
     (case getPackageByDigest env (world st) (digest imageManifest) of
        None \<Rightarrow> (Inr imagesDeleted, st)
      | Some manifestPackage \<Rightarrow>
          if name manifestPackage \<in> set (deleted st) then (Inr imagesDeleted, st)
          else
            (case digestUsedBy st (name manifestPackage) of
               None \<Rightarrow> (Inr imagesDeleted, st)
             | Some parents \<Rightarrow>
                 if length parents = 1 \<and> parent \<in> set parents then
                   (case buildLabel env (world st) imageManifest of
                      Inl e \<Rightarrow> (Inl e, st)
                    | Inr label \<Rightarrow>
                        (let st1 = st\<lparr>calls := calls st @
                                [DeletePackageVersion (pkg_id manifestPackage)
                                   (name manifestPackage) [] (Some label)]\<rparr>
                         in case deletePackageVersion env (pkg_id manifestPackage)
                                   (name manifestPackage) [] (Some label) (world st) of
                              Inl e \<Rightarrow> (Inl e, st1)
                            | Inr w' \<Rightarrow>
                                (Inr (imagesDeleted + 1),
                                 st1\<lparr>world := w',
                                     deleted := js_add (name manifestPackage) (deleted st),
                                     digestUsedBy :=
                                       (digestUsedBy st)(name manifestPackage := None)\<rparr>)))
                 else
                   (Inr imagesDeleted,
                    st\<lparr>digestUsedBy := (digestUsedBy st)
                          (name manifestPackage \<mapsto> js_delete parent parents)\<rparr>)))"

definition deleteChildren ::
  "'w env \<Rightarrow> digest \<Rightarrow> descriptor list \<Rightarrow> nat \<Rightarrow> 'w session \<Rightarrow> (error + nat) \<times> 'w session" where
  "deleteChildren env parent ms imagesDeleted st =
     forEach (deleteChild env parent) ms imagesDeleted st"

text \<open>
  The loop over the tags that start with the image's \<open>sha256-\<close> form. \<open>self\<close> is the
  recursive call \<open>this.deleteImage\<close>; it returns \<open>None\<close> when the recursion is cut off.
  The pair is \<open>(imagesDeleted, multiImagesDeleted)\<close>.
\<close>

type_synonym 'w deletion = "((error + nat \<times> nat) \<times> 'w session) option"

definition deleteReferrer ::
  "(package option \<Rightarrow> 'w session \<Rightarrow> 'w deletion) \<Rightarrow> 'w env \<Rightarrow> string \<Rightarrow> tag \<Rightarrow>
   nat \<times> nat \<Rightarrow> 'w session \<Rightarrow> 'w deletion" where
  "deleteReferrer self env digestTag t acc st =
     (if prefix digestTag t then
        (case getDigestByTag env (world st) t of
           None \<Rightarrow> Some (Inr acc, st)
         | Some manifestDigest \<Rightarrow>
             if manifestDigest = [] then Some (Inr acc, st)
             else
               (case getPackageByDigest env (world st) manifestDigest of
                  None \<Rightarrow> Some (Inr acc, st)
                | Some attestationPackage \<Rightarrow>
                    (case self (Some attestationPackage) st of
                       None \<Rightarrow> None
                     | Some (Inl e, st') \<Rightarrow> Some (Inl e, st')
                     | Some (Inr result, st') \<Rightarrow>
                         Some (Inr (fst acc + fst result, snd acc + snd result), st'))))
      else Some (Inr acc, st))"

definition deleteReferrers ::
  "(package option \<Rightarrow> 'w session \<Rightarrow> 'w deletion) \<Rightarrow> 'w env \<Rightarrow> string \<Rightarrow> tag list \<Rightarrow>
   nat \<times> nat \<Rightarrow> 'w session \<Rightarrow> 'w deletion" where
  "deleteReferrers self env digestTag ts acc st =
     forEachCut (deleteReferrer self env digestTag) ts acc st"

text \<open>
  The three phases of \<open>deleteImage\<close> after the check of the \<open>deleted\<close> set:
  fetch the manifest and delete the package version itself; if the manifest has a
  \<open>manifests\<close> list, handle the children; then follow the referrer tags.
\<close>

definition deleteSelf :: "'w env \<Rightarrow> package \<Rightarrow> 'w session \<Rightarrow> (error + manifest) \<times> 'w session" where
  "deleteSelf env p st =
     (case getManifestByDigest env (world st) (name p) of
        Inl e \<Rightarrow> (Inl e, st)
      | Inr m \<Rightarrow>
          (let st1 = st\<lparr>calls := calls st @
                  [DeletePackageVersion (pkg_id p) (name p) (tags p) None]\<rparr>
           in case deletePackageVersion env (pkg_id p) (name p) (tags p) None (world st) of
                Inl e \<Rightarrow> (Inl e, st1)
              | Inr w' \<Rightarrow>
                  (Inr m, st1\<lparr>world := w', deleted := js_add (name p) (deleted st)\<rparr>)))"

definition deleteManifestChildren ::
  "'w env \<Rightarrow> package \<Rightarrow> manifest \<Rightarrow> 'w session \<Rightarrow> (error + nat \<times> nat) \<times> 'w session" where
  "deleteManifestChildren env p m st =
     (case manifests m of
        None \<Rightarrow> (Inr (1, 0), st)
      | Some ms \<Rightarrow>
          (case deleteChildren env (name p) ms 1 st of
             (Inl e, st') \<Rightarrow> (Inl e, st')
           | (Inr imagesDeleted, st') \<Rightarrow> (Inr (imagesDeleted, 1), st')))"

definition deleteImageBody ::
  "(package option \<Rightarrow> 'w session \<Rightarrow> 'w deletion) \<Rightarrow> 'w env \<Rightarrow> package option \<Rightarrow>
   'w session \<Rightarrow> 'w deletion" where
  "deleteImageBody self env ghPackage st =
     (case ghPackage of
        None \<Rightarrow> Some (Inl TypeError, st)
      | Some p \<Rightarrow>
          if name p \<in> set (deleted st) then Some (Inr (0, 0), st)
          else
            (case deleteSelf env p st of
               (Inl e, st2) \<Rightarrow> Some (Inl e, st2)
             | (Inr m, st2) \<Rightarrow>
                 (case deleteManifestChildren env p m st2 of
                    (Inl e, st3) \<Rightarrow> Some (Inl e, st3)
                  | (Inr counts, st3) \<Rightarrow>
                      deleteReferrers self env
                        (replaceFirst ''sha256:'' ''sha256-'' (name p))
                        (getTags env (world st3)) counts st3)))"

text \<open>
  \<open>ImageDeleter.deleteImage\<close>. The recursion follows referrer tags and is bounded in the
  source only by the \<open>deleted\<close> set, so the model carries the nesting depth still
  allowed; \<open>None\<close> means the depth was exhausted before the call returned.
\<close>

primrec deleteImage :: "nat \<Rightarrow> 'w env \<Rightarrow> package option \<Rightarrow> 'w session \<Rightarrow> 'w deletion" where
  "deleteImage 0 env ghPackage st = None"
| "deleteImage (Suc depth) env ghPackage st =
     deleteImageBody (deleteImage depth env) env ghPackage st"

text \<open>\<open>ImageDeleter.reset\<close>.\<close>

definition reset :: "'w session \<Rightarrow> 'w session" where
  "reset st = st\<lparr>deleted := []\<rparr>"

text \<open>\<open>ImageDeleter.deleteImages\<close>: prime the manifests, then delete every entry of the set.\<close>

definition deleteOne ::
  "nat \<Rightarrow> 'w env \<Rightarrow> digest \<Rightarrow> nat \<times> nat \<Rightarrow> 'w session \<Rightarrow> 'w deletion" where
  "deleteOne depth env deleteDigest acc st =
     (case deleteImage depth env (getPackageByDigest env (world st) deleteDigest) st of
        None \<Rightarrow> None
      | Some (Inl e, st') \<Rightarrow> Some (Inl e, st')
      | Some (Inr result, st') \<Rightarrow>
          Some (Inr (fst acc + fst result, snd acc + snd result), st'))"

definition deleteImages :: "nat \<Rightarrow> 'w env \<Rightarrow> digest list \<Rightarrow> 'w session \<Rightarrow> 'w deletion" where
  "deleteImages depth env deleteSet st =
     (case primeManifests env (world st) deleteSet of
        Inl e \<Rightarrow> Some (Inl e, st)
      | Inr u \<Rightarrow> forEachCut (deleteOne depth env) deleteSet (0, 0) st)"

section \<open>Image Filter\<close>

text \<open>
  The part of \<open>Config\<close> these components read. An unset option is \<open>None\<close>.
  The pattern matchers and the clock belong to the runtime and its libraries and are
  parameters: \<open>regexp\<close> is \<open>new RegExp(pattern)\<close> (which throws on an invalid
  pattern) with its \<open>test\<close> method, \<open>wcmatch\<close> the wildcard-match library,
  \<open>dateParse\<close> the time value of \<open>new Date(string)\<close> (\<open>None\<close> for an invalid
  date), and \<open>dateNow i\<close> the reading of \<open>Date.now()\<close> during iteration \<open>i\<close> of
  the loop of \<open>applyAgeFilter\<close>.
\<close>

record config =
  deleteTags :: "string option"
  useRegex :: bool
  olderThan :: "int option"
  keepNtagged :: "int option"

record runtime =
  regexp :: "string \<Rightarrow> error + (string \<Rightarrow> bool)"
  wcmatch :: "string list \<Rightarrow> string \<Rightarrow> bool"
  dateParse :: "string \<Rightarrow> int option"
  dateNow :: "nat \<Rightarrow> int"

text \<open>
  \<open>new Date(v)\<close> for a number \<open>v\<close>: a time value beyond 8.64e15 milliseconds on
  either side of the epoch gives an Invalid Date, which compares false with
  everything.
\<close>

definition timeClip :: "int \<Rightarrow> int option" where
  "timeClip v = (if abs v \<le> 8640000000000000 then Some v else None)"

text \<open>
  \<open>ImageFilter.applyAgeFilter\<close>; \<open>ageStep\<close> is the body of its loop. The age limit
  \<open>olderThan\<close> is a whole number of milliseconds.
\<close>

definition ageStep ::
  "runtime \<Rightarrow> 'w env \<Rightarrow> 'w \<Rightarrow> int \<Rightarrow> nat \<Rightarrow> digest \<Rightarrow> digest list \<Rightarrow>
   (error + unit) \<times> digest list" where
  "ageStep rt env w older i d filterSet =
     (case getPackageByDigest env w d of
        None \<Rightarrow> (Inl TypeError, filterSet)
      | Some ghPackage \<Rightarrow>
          (case updated_at ghPackage of
             None \<Rightarrow> (Inr (), filterSet)
           | Some s \<Rightarrow>
               if s = [] then (Inr (), filterSet)
               else
                 (let cutOff = timeClip (dateNow rt i - older)
                  in case dateParse rt s of
                       None \<Rightarrow> (Inr (), filterSet)
                     | Some packageDate \<Rightarrow>
                         (case cutOff of
                            None \<Rightarrow> (Inr (), filterSet)
                          | Some cutOffTime \<Rightarrow>
                              if packageDate \<ge> cutOffTime
                              then (Inr (), js_delete d filterSet)
                              else (Inr (), filterSet)))))"

fun ageLoop ::
  "runtime \<Rightarrow> 'w env \<Rightarrow> 'w \<Rightarrow> int \<Rightarrow> nat \<Rightarrow> digest list \<Rightarrow> digest list \<Rightarrow>
   (error + unit) \<times> digest list" where
  "ageLoop rt env w older i [] filterSet = (Inr (), filterSet)"
| "ageLoop rt env w older i (d # rest) filterSet =
     (case ageStep rt env w older i d filterSet of
        (Inl e, filterSet') \<Rightarrow> (Inl e, filterSet')
      | (Inr u, filterSet') \<Rightarrow> ageLoop rt env w older (Suc i) rest filterSet')"

definition applyAgeFilter ::
  "runtime \<Rightarrow> 'w env \<Rightarrow> 'w \<Rightarrow> config \<Rightarrow> digest list \<Rightarrow> (error + unit) \<times> digest list" where
  "applyAgeFilter rt env w cfg filterSet =
     (case olderThan cfg of
        None \<Rightarrow> (Inr (), filterSet)
      | Some older \<Rightarrow>
          if older = 0 then (Inr (), filterSet)
          else ageLoop rt env w older 0 filterSet filterSet)"

text \<open>\<open>ImageFilter.expandTags\<close>.\<close>

fun matchPackageTags ::
  "(string \<Rightarrow> bool) \<Rightarrow> 'w env \<Rightarrow> 'w \<Rightarrow> digest list \<Rightarrow> string list \<Rightarrow> error + string list" where
  "matchPackageTags isTagMatch env w [] matchTags = Inr matchTags"
| "matchPackageTags isTagMatch env w (d # rest) matchTags =
     (case getPackageByDigest env w d of
        None \<Rightarrow> Inl TypeError
      | Some ghPackage \<Rightarrow>
          matchPackageTags isTagMatch env w rest
            (fold js_add (filter isTagMatch (tags ghPackage)) matchTags))"

definition matchAll ::
  "(string \<Rightarrow> bool) \<Rightarrow> 'w env \<Rightarrow> 'w \<Rightarrow> digest list \<Rightarrow> error + string list" where
  "matchAll isTagMatch env w filterSet =
     (case matchPackageTags isTagMatch env w filterSet [] of
        Inl e \<Rightarrow> Inl e
      | Inr matchTags \<Rightarrow> Inr (fold js_add (filter isTagMatch filterSet) matchTags))"

definition expandTags ::
  "runtime \<Rightarrow> 'w env \<Rightarrow> 'w \<Rightarrow> config \<Rightarrow> digest list \<Rightarrow> error + string list" where
  "expandTags rt env w cfg filterSet =
     (case deleteTags cfg of
        None \<Rightarrow> Inr []
      | Some pat \<Rightarrow>
          if pat = [] then Inr []
          else if useRegex cfg then
            (case regexp rt pat of
               Inl e \<Rightarrow> Inl e
             | Inr test \<Rightarrow> matchAll test env w filterSet)
          else matchAll (wcmatch rt (splitOn CHR '','' pat)) env w filterSet)"

section \<open>Deletion Strategy\<close>

text \<open>
  \<open>DeletionStrategy.processTagDeletions\<close>. \<open>classifyTag\<close> is the body of the first
  loop (the local set \<open>untaggingTags\<close> is written there and never read, and is left
  out), \<open>stageTag\<close> the body of the second. The function returns the plan together
  with the filter set it has mutated; it can only throw before the first mutation.
\<close>

record plan =
  deleteSet :: "digest list"
  untagOperations :: "(digest \<times> tag list) list"

fun pushTag :: "digest \<Rightarrow> tag \<Rightarrow> (digest \<times> tag list) list \<Rightarrow> (digest \<times> tag list) list" where
  "pushTag d t [] = [(d, [t])]"
| "pushTag d t ((k, ts) # rest) =
     (if k = d then (k, ts @ [t]) # rest else (k, ts) # pushTag d t rest)"

definition classifyTag ::
  "'w env \<Rightarrow> 'w \<Rightarrow> string list \<Rightarrow> tag \<Rightarrow> string list \<times> (digest \<times> tag list) list \<Rightarrow>
   error + string list \<times> (digest \<times> tag list) list" where
  "classifyTag env w excludeTags t acc =
     (if t \<in> set excludeTags then Inr acc
      else if prefix ''sha256:'' t then Inr (js_add t (fst acc), snd acc)
      else
        (case getDigestByTag env w t of
           None \<Rightarrow> Inr acc
         | Some manifestDigest \<Rightarrow>
             if manifestDigest = [] then Inr acc
             else
               (case getPackageByDigest env w manifestDigest of
                  None \<Rightarrow> Inl TypeError
                | Some ghPackage \<Rightarrow>
                    if length (tags ghPackage) > 1
                    then Inr (fst acc, pushTag manifestDigest t (snd acc))
                    else if length (tags ghPackage) = 1
                    then Inr (js_add t (fst acc), snd acc)
                    else Inr acc)))"

fun classifyTags ::
  "'w env \<Rightarrow> 'w \<Rightarrow> string list \<Rightarrow> tag list \<Rightarrow> string list \<times> (digest \<times> tag list) list \<Rightarrow>
   error + string list \<times> (digest \<times> tag list) list" where
  "classifyTags env w excludeTags [] acc = Inr acc"
| "classifyTags env w excludeTags (t # rest) acc =
     (case classifyTag env w excludeTags t acc of
        Inl e \<Rightarrow> Inl e
      | Inr acc' \<Rightarrow> classifyTags env w excludeTags rest acc')"

definition stageTag ::
  "'w env \<Rightarrow> 'w \<Rightarrow> tag \<Rightarrow> digest list \<times> digest list \<Rightarrow> digest list \<times> digest list" where
  "stageTag env w t acc =
     (case (if prefix ''sha256:'' t then Some t else getDigestByTag env w t) of
        None \<Rightarrow> acc
      | Some manifestDigest \<Rightarrow>
          if manifestDigest = [] then acc
          else (js_add manifestDigest (fst acc), js_delete manifestDigest (snd acc)))"

definition processTagDeletions ::
  "runtime \<Rightarrow> 'w env \<Rightarrow> 'w \<Rightarrow> config \<Rightarrow> digest list \<Rightarrow> string list \<Rightarrow>
   error + plan \<times> digest list" where
  "processTagDeletions rt env w cfg filterSet excludeTags =
     (if deleteTags cfg = None \<or> deleteTags cfg = Some [] then
        Inr (\<lparr>deleteSet = [], untagOperations = []\<rparr>, filterSet)
      else
        (case expandTags rt env w cfg filterSet of
           Inl e \<Rightarrow> Inl e
         | Inr matchTags \<Rightarrow>
             if matchTags = [] then Inr (\<lparr>deleteSet = [], untagOperations = []\<rparr>, filterSet)
             else
               (case classifyTags env w excludeTags matchTags ([], []) of
                  Inl e \<Rightarrow> Inl e
                | Inr (standardTags, operations) \<Rightarrow>
                    if standardTags \<noteq> [] \<and> keepNtagged cfg = None then
                      (case fold (stageTag env w) standardTags ([], filterSet) of
                         (staged, filterSet') \<Rightarrow>
                           Inr (\<lparr>deleteSet = staged, untagOperations = operations\<rparr>,
                                filterSet'))
                    else Inr (\<lparr>deleteSet = [], untagOperations = operations\<rparr>, filterSet))))"

section \<open>Image Validator\<close>

text \<open>
  \<open>ImageValidator.findGhostImages\<close> and \<open>findPartialImages\<close>. Both log the tags of a
  flagged digest, which reads its package record.
\<close>

definition childMissing :: "'w env \<Rightarrow> 'w \<Rightarrow> descriptor \<Rightarrow> bool" where
  "childMissing env w imageManifest =
     (\<not> idTruthy (getIdByDigest env w (digest imageManifest)))"

fun findGhostLoop :: "'w env \<Rightarrow> 'w \<Rightarrow> digest list \<Rightarrow> digest list \<Rightarrow> error + digest list" where
  "findGhostLoop env w [] ghostImages = Inr ghostImages"
| "findGhostLoop env w (d # rest) ghostImages =
     (case getManifestByDigest env w d of
        Inl e \<Rightarrow> Inl e
      | Inr m \<Rightarrow>
          (case manifests m of
             None \<Rightarrow> findGhostLoop env w rest ghostImages
           | Some ms \<Rightarrow>
               if length (filter (childMissing env w) ms) = length ms then
                 (case getPackageByDigest env w d of
                    None \<Rightarrow> Inl TypeError
                  | Some ghPackage \<Rightarrow> findGhostLoop env w rest (js_add d ghostImages))
               else findGhostLoop env w rest ghostImages))"

definition findGhostImages :: "'w env \<Rightarrow> 'w \<Rightarrow> digest list \<Rightarrow> error + digest list" where
  "findGhostImages env w filterSet = findGhostLoop env w filterSet []"

fun findPartialLoop :: "'w env \<Rightarrow> 'w \<Rightarrow> digest list \<Rightarrow> digest list \<Rightarrow> error + digest list" where
  "findPartialLoop env w [] partialImages = Inr partialImages"
| "findPartialLoop env w (d # rest) partialImages =
     (case getManifestByDigest env w d of
        Inl e \<Rightarrow> Inl e
      | Inr m \<Rightarrow>
          (case manifests m of
             None \<Rightarrow> findPartialLoop env w rest partialImages
           | Some ms \<Rightarrow>
               if list_ex (childMissing env w) ms then
                 (case getPackageByDigest env w d of
                    None \<Rightarrow> Inl TypeError
                  | Some ghPackage \<Rightarrow> findPartialLoop env w rest (js_add d partialImages))
               else findPartialLoop env w rest partialImages))"

definition findPartialImages :: "'w env \<Rightarrow> 'w \<Rightarrow> digest list \<Rightarrow> error + digest list" where
  "findPartialImages env w filterSet = findPartialLoop env w filterSet []"

section \<open>An in-memory store\<close>

text \<open>
  Modelled from the spec: a concrete Package Index and Registry following the contracts
  of section 6, used to run the components on explicit inputs (package-repo.ts and
  registry.ts are not in the source tree). \<open>versions\<close> is what the remote store holds,
  \<open>snapshot\<close> what \<open>loadPackages\<close> last read, \<open>blobs\<close> the manifests by digest.
  Lookups read the snapshot; \<open>deletePackageVersion\<close> fails when the version is gone;
  \<open>putManifest\<close> stores the manifest under the digest \<open>mint\<close> computes for it and moves
  the tag to that version, creating the version when it does not exist.
\<close>

record store =
  snapshot :: "package list"
  versions :: "package list"
  blobs :: "(digest \<times> manifest) list"

definition store_put :: "(manifest \<Rightarrow> digest) \<Rightarrow> tag \<Rightarrow> manifest \<Rightarrow> store \<Rightarrow> store" where
  "store_put mint t m s =
     (let d = mint m;
          vs = map (\<lambda>p. p\<lparr>tags := removeAll t (tags p)\<rparr>) (versions s);
          vs' = (if d \<in> set (map name vs)
                 then map (\<lambda>p. if name p = d then p\<lparr>tags := tags p @ [t]\<rparr> else p) vs
                 else vs @ [\<lparr>pkg_id = Suc (fold max (map pkg_id vs) 0), name = d,
                             tags = [t], updated_at = None\<rparr>])
      in s\<lparr>versions := vs', blobs := (d, m) # blobs s\<rparr>)"

definition storeEnv :: "(manifest \<Rightarrow> digest) \<Rightarrow> store env" where
  "storeEnv mint =
     \<lparr>getManifestByDigest =
        (\<lambda>s d. case map_of (blobs s) d of
                  None \<Rightarrow> Inl (ApiError ''manifest unknown'')
                | Some m \<Rightarrow> Inr m),
      putManifest = (\<lambda>t m isIndex s. Inr (store_put mint t m s)),
      loadPackages = (\<lambda>output s. Inr (s\<lparr>snapshot := versions s\<rparr>)),
      getDigests = (\<lambda>s. remdups (map name (snapshot s))),
      getTags = (\<lambda>s. remdups (concat (map tags (snapshot s)))),
      getDigestByTag =
        (\<lambda>s t. map_option name (find (\<lambda>p. t \<in> set (tags p)) (rev (snapshot s)))),
      getIdByDigest =
        (\<lambda>s d. map_option pkg_id (find (\<lambda>p. name p = d) (rev (snapshot s)))),
      getPackageByDigest = (\<lambda>s d. find (\<lambda>p. name p = d) (rev (snapshot s))),
      deletePackageVersion =
        (\<lambda>i d ts label s.
           if i \<in> set (map pkg_id (versions s))
           then Inr (s\<lparr>versions := filter (\<lambda>p. pkg_id p \<noteq> i) (versions s)\<rparr>)
           else Inl (ApiError ''NotFound''))\<rparr>"

definition mkPackage :: "nat \<Rightarrow> digest \<Rightarrow> tag list \<Rightarrow> package" where
  "mkPackage i d ts = \<lparr>pkg_id = i, name = d, tags = ts, updated_at = None\<rparr>"

definition child :: "digest \<Rightarrow> descriptor" where
  "child d = \<lparr>digest = d, platform = None, artifactType = None\<rparr>"

definition indexManifest :: "digest list \<Rightarrow> manifest" where
  "indexManifest ds = \<lparr>manifests = Some (map child ds), layers = None\<rparr>"

definition leafManifest :: manifest where
  "leafManifest = \<lparr>manifests = None, layers = Some [\<lparr>mediaType = ''layer''\<rparr>]\<rparr>"

definition mkStore :: "package list \<Rightarrow> (digest \<times> manifest) list \<Rightarrow> store" where
  "mkStore ps ms = \<lparr>snapshot = ps, versions = ps, blobs = ms\<rparr>"

definition newSession :: "'w \<Rightarrow> (digest \<rightharpoonup> digest list) \<Rightarrow> 'w session" where
  "newSession w usedBy = \<lparr>world = w, calls = [], deleted = [], digestUsedBy = usedBy\<rparr>"

subsection \<open>Example repositories\<close>

definition mint :: "manifest \<Rightarrow> digest" where
  "mint m = (if manifests m \<noteq> None then ''sha256:e1'' else ''sha256:e2'')"

definition testEnv :: "store env" where
  "testEnv = storeEnv mint"

text \<open>
  Scenarios A and B of the specification: \<open>P\<close> is an index manifest over \<open>C1\<close> and
  \<open>C2\<close>; in B a second index \<open>Q\<close>, which is not deleted, also lists \<open>C1\<close>.
\<close>

definition pkgP :: package where "pkgP = mkPackage 1 ''sha256:p'' [''latest'']"
definition pkgQ :: package where "pkgQ = mkPackage 4 ''sha256:q'' [''stable'']"
definition pkgC1 :: package where "pkgC1 = mkPackage 2 ''sha256:c1'' []"
definition pkgC2 :: package where "pkgC2 = mkPackage 3 ''sha256:c2'' []"

definition storeA :: store where
  "storeA = mkStore [pkgP, pkgC1, pkgC2]
     [(''sha256:p'', indexManifest [''sha256:c1'', ''sha256:c2'']),
      (''sha256:c1'', leafManifest), (''sha256:c2'', leafManifest)]"

definition sessionA :: "store session" where
  "sessionA = newSession storeA
     [''sha256:c1'' \<mapsto> [''sha256:p''], ''sha256:c2'' \<mapsto> [''sha256:p'']]"

definition storeB :: store where
  "storeB = mkStore [pkgP, pkgQ, pkgC1, pkgC2]
     [(''sha256:p'', indexManifest [''sha256:c1'', ''sha256:c2'']),
      (''sha256:q'', indexManifest [''sha256:c1'']),
      (''sha256:c1'', leafManifest), (''sha256:c2'', leafManifest)]"

definition sessionB :: "store session" where
  "sessionB = newSession storeB
     [''sha256:c1'' \<mapsto> [''sha256:p'', ''sha256:q''], ''sha256:c2'' \<mapsto> [''sha256:p'']]"

text \<open>
  A multi-architecture image \<open>M\<close> whose only child \<open>N\<close> is itself an index over \<open>G\<close>,
  and a signature \<open>S\<close> attached to \<open>N\<close> by the referrer tag \<open>sha256-n.sig\<close>.
\<close>

definition pkgM :: package where "pkgM = mkPackage 1 ''sha256:m'' [''latest'']"
definition pkgN :: package where "pkgN = mkPackage 2 ''sha256:n'' []"
definition pkgG :: package where "pkgG = mkPackage 3 ''sha256:g'' []"
definition pkgS :: package where "pkgS = mkPackage 4 ''sha256:s'' [''sha256-n.sig'']"

definition storeN :: store where
  "storeN = mkStore [pkgM, pkgN, pkgG, pkgS]
     [(''sha256:m'', indexManifest [''sha256:n'']),
      (''sha256:n'', indexManifest [''sha256:g'']),
      (''sha256:g'', leafManifest), (''sha256:s'', leafManifest)]"

definition sessionN :: "store session" where
  "sessionN = newSession storeN
     [''sha256:n'' \<mapsto> [''sha256:m''], ''sha256:g'' \<mapsto> [''sha256:n'']]"


text \<open>
  A repository for untagging: \<open>D1\<close> carries two tags, \<open>D2\<close> a single one.
\<close>

definition pkgD1 :: package where "pkgD1 = mkPackage 10 ''sha256:d1'' [''v1.0'', ''latest'']"
definition pkgD2 :: package where "pkgD2 = mkPackage 11 ''sha256:d2'' [''v2.0'']"

definition storeU :: store where
  "storeU = mkStore [pkgD1, pkgD2]
     [(''sha256:d1'', indexManifest [''sha256:x'']), (''sha256:d2'', leafManifest)]"

definition sessionU :: "store session" where
  "sessionU = newSession storeU Map.empty"


text \<open>
  Scenario D of the specification: \<open>ghost1\<close> is an index manifest whose two children
  are both absent from the Package Index.
\<close>

definition pkgGhost :: package where "pkgGhost = mkPackage 20 ''sha256:ghost1'' [''broken'']"

definition storeG :: store where
  "storeG = mkStore [pkgGhost]
     [(''sha256:ghost1'', indexManifest [''sha256:x1'', ''sha256:x2''])]"

text \<open>The map \<open>loadDigestUsedByMap\<close> returns (empty when it throws).\<close>

definition loadedMap :: "error + (digest \<rightharpoonup> digest list) \<Rightarrow> (digest \<rightharpoonup> digest list)" where
  "loadedMap r = (case r of Inl e \<Rightarrow> Map.empty | Inr usedBy \<Rightarrow> usedBy)"

text \<open>
  A repository for tag deletion and the age filter: \<open>D1\<close> with two tags, \<open>D2\<close> with
  one, \<open>D3\<close> untagged. The matchers of \<open>plainRuntime\<close> match a string against the
  listed names literally; it knows three dates, and its clock stands at 5000
  milliseconds.
\<close>

definition pkgD3 :: package where "pkgD3 = mkPackage 12 ''sha256:d3'' []"

definition storeT :: store where
  "storeT = mkStore [pkgD1, pkgD2, pkgD3]
     [(''sha256:d1'', leafManifest), (''sha256:d2'', leafManifest),
      (''sha256:d3'', leafManifest)]"

definition plainRuntime :: runtime where
  "plainRuntime =
     \<lparr>regexp = (\<lambda>pat. Inr (\<lambda>s. s = pat)),
      wcmatch = (\<lambda>pats s. s \<in> set pats),
      dateParse = map_of [(''1970-01-01T00:00:01Z'', 1000), (''1970-01-01T00:00:04Z'', 4000),
                          (''1970-01-01T00:00:05Z'', 5000)],
      dateNow = (\<lambda>i. 5000)\<rparr>"

definition tagConfig :: "int option \<Rightarrow> config" where
  "tagConfig keep =
     \<lparr>deleteTags = Some ''v1.0,v2.0,sha256:d3'', useRegex = False, olderThan = None,
      keepNtagged = keep\<rparr>"

text \<open>
  A repository for the age filter, with an age limit of one second: \<open>old\<close> was updated
  at 1000, \<open>edge\<close> at 4000, which is the cutoff when the clock stands at 5000, and
  \<open>undated\<close> has no \<open>updated_at\<close>.
\<close>

definition pkgOld :: package where
  "pkgOld = \<lparr>pkg_id = 30, name = ''sha256:old'', tags = [],
             updated_at = Some ''1970-01-01T00:00:01Z''\<rparr>"

definition pkgEdge :: package where
  "pkgEdge = \<lparr>pkg_id = 31, name = ''sha256:edge'', tags = [],
              updated_at = Some ''1970-01-01T00:00:04Z''\<rparr>"

definition pkgUndated :: package where
  "pkgUndated = mkPackage 32 ''sha256:undated'' []"

definition storeAge :: store where
  "storeAge = mkStore [pkgOld, pkgEdge, pkgUndated] []"

definition ageConfig :: config where
  "ageConfig = \<lparr>deleteTags = None, useRegex = False, olderThan = Some 1000,
                keepNtagged = None\<rparr>"

text \<open>An age limit so large that the cutoff is not a valid time value.\<close>

definition hugeAgeConfig :: config where
  "hugeAgeConfig = \<lparr>deleteTags = None, useRegex = False,
                    olderThan = Some 10000000000000000, keepNtagged = None\<rparr>"

text \<open>
  The digests passed to \<open>deletePackageVersion\<close> so far, in order; and the property that
  no digest was passed twice and each of them is in the \<open>deleted\<close> set.
\<close>

fun deletedDigests :: "call list \<Rightarrow> digest list" where
  "deletedDigests [] = []"
| "deletedDigests (DeletePackageVersion i d ts label # cs) = d # deletedDigests cs"
| "deletedDigests (c # cs) = deletedDigests cs"

definition deletedOnce :: "'w session \<Rightarrow> bool" where
  "deletedOnce st =
     (distinct (deletedDigests (calls st))
      \<and> set (deletedDigests (calls st)) \<subseteq> set (deleted st))"

text \<open>What a finished deletion shows: its result, the calls it issued, the deleted set.\<close>

definition outcome :: "'w deletion \<Rightarrow> ((error + nat \<times> nat) \<times> call list \<times> digest list) option" where
  "outcome r = (case r of None \<Rightarrow> None | Some (res, st) \<Rightarrow> Some (res, calls st, deleted st))"

section \<open>Verification\<close>

subsection \<open>Iteration and evaluation\<close>

lemmas fixture_defs = testEnv_def storeEnv_def mint_def store_put_def mkPackage_def child_def
  indexManifest_def leafManifest_def mkStore_def newSession_def
  pkgP_def pkgQ_def pkgC1_def pkgC2_def storeA_def sessionA_def storeB_def sessionB_def
  pkgM_def pkgN_def pkgG_def pkgS_def storeN_def sessionN_def

lemmas deleter_defs = deleteImages_def primeManifests_def deleteOne_def deleteImageBody_def
  deleteSelf_def deleteManifestChildren_def deleteChildren_def deleteChild_def
  deleteReferrers_def deleteReferrer_def buildLabel_def js_add_def js_delete_def outcome_def

text \<open>
  A relation between the state before and after a loop body that is reflexive and
  transitive holds between the state before and after the whole loop.
\<close>

lemma forEach_rel:
  assumes refl: "\<And>s. R s s" and trans: "\<And>a b c. R a b \<Longrightarrow> R b c \<Longrightarrow> R a c"
    and step: "\<And>x acc s r s'. body x acc s = (r, s') \<Longrightarrow> R s s'"
  shows "forEach body xs acc st = (r, st') \<Longrightarrow> R st st'"
proof (induction xs arbitrary: acc st)
  case Nil
  then show ?case by (simp add: refl)
next
  case (Cons x xs)
  obtain r1 s1 where b: "body x acc st = (r1, s1)" by (cases "body x acc st")
  have r1: "R st s1" using b by (rule step)
  show ?case
  proof (cases r1)
    case (Inl e)
    with Cons.prems b have "st' = s1" by simp
    with r1 show ?thesis by simp
  next
    case (Inr a)
    with Cons.prems b have "forEach body xs a s1 = (r, st')" by simp
    then have "R s1 st'" by (rule Cons.IH)
    with r1 show ?thesis by (rule trans)
  qed
qed

lemma forEachCut_rel:
  assumes refl: "\<And>s. R s s" and trans: "\<And>a b c. R a b \<Longrightarrow> R b c \<Longrightarrow> R a c"
    and step: "\<And>x acc s r s'. body x acc s = Some (r, s') \<Longrightarrow> R s s'"
  shows "forEachCut body xs acc st = Some (r, st') \<Longrightarrow> R st st'"
proof (induction xs arbitrary: acc st)
  case Nil
  then show ?case by (simp add: refl)
next
  case (Cons x xs)
  from Cons.prems obtain r1 s1 where b: "body x acc st = Some (r1, s1)"
    by (cases "body x acc st") auto
  have r1: "R st s1" using b by (rule step)
  show ?case
  proof (cases r1)
    case (Inl e)
    with Cons.prems b have "st' = s1" by simp
    with r1 show ?thesis by simp
  next
    case (Inr a)
    with Cons.prems b have "forEachCut body xs a s1 = Some (r, st')" by simp
    then have "R s1 st'" by (rule Cons.IH)
    with r1 show ?thesis by (rule trans)
  qed
qed

subsection \<open>Image Deleter: cascading deletion\<close>

text \<open>The \<open>deleted\<close> set only grows, through every phase of \<open>deleteImage\<close>.\<close>

lemma deleteChild_deleted_mono:
  "deleteChild env P im n st = (r, st') \<Longrightarrow> set (deleted st) \<subseteq> set (deleted st')"
  by (auto simp: deleteChild_def js_add_def Let_def split: option.splits if_splits sum.splits)

lemma deleteChildren_deleted_mono:
  "deleteChildren env P ms n st = (r, st') \<Longrightarrow> set (deleted st) \<subseteq> set (deleted st')"
  unfolding deleteChildren_def
  by (erule forEach_rel[where R = "\<lambda>s s'. set (deleted s) \<subseteq> set (deleted s')", rotated 3])
     (auto dest: deleteChild_deleted_mono)

lemma deleteReferrer_deleted_mono:
  assumes self: "\<And>p s r s'. self p s = Some (r, s') \<Longrightarrow> set (deleted s) \<subseteq> set (deleted s')"
    and run: "deleteReferrer self env dt t acc st = Some (r, st')"
  shows "set (deleted st) \<subseteq> set (deleted st')"
proof -
  have "st' = st \<or> (\<exists>ap e. self (Some ap) st = Some (Inl e, st'))
        \<or> (\<exists>ap c. self (Some ap) st = Some (Inr c, st'))"
    using run unfolding deleteReferrer_def
    by (auto split: if_splits option.splits sum.splits prod.splits)
  then show ?thesis using self by blast
qed

lemma deleteReferrers_deleted_mono:
  assumes self: "\<And>p s r s'. self p s = Some (r, s') \<Longrightarrow> set (deleted s) \<subseteq> set (deleted s')"
    and run: "deleteReferrers self env dt ts acc st = Some (r, st')"
  shows "set (deleted st) \<subseteq> set (deleted st')"
proof (rule forEachCut_rel[where R = "\<lambda>s s'. set (deleted s) \<subseteq> set (deleted s')"])
  show "forEachCut (deleteReferrer self env dt) ts acc st = Some (r, st')"
    using run by (simp add: deleteReferrers_def)
  show "\<And>x acc s r s'. deleteReferrer self env dt x acc s = Some (r, s') \<Longrightarrow>
          set (deleted s) \<subseteq> set (deleted s')"
    using self by (rule deleteReferrer_deleted_mono)
qed auto

lemma deleteSelf_deleted:
  "deleteSelf env p st = (r, st') \<Longrightarrow> set (deleted st) \<subseteq> set (deleted st')"
  "deleteSelf env p st = (Inr m, st') \<Longrightarrow> name p \<in> set (deleted st')"
  by (auto simp: deleteSelf_def js_add_def Let_def split: sum.splits if_splits)

lemma deleteManifestChildren_deleted_mono:
  "deleteManifestChildren env p m st = (r, st') \<Longrightarrow> set (deleted st) \<subseteq> set (deleted st')"
  by (auto simp: deleteManifestChildren_def split: option.splits prod.splits sum.splits
           dest: deleteChildren_deleted_mono)

lemma deleteImageBody_cases:
  assumes run: "deleteImageBody self env po st = Some (r, st')"
  shows "st' = st
       \<or> (\<exists>p e. po = Some p \<and> deleteSelf env p st = (Inl e, st'))
       \<or> (\<exists>p m st2 e. po = Some p \<and> deleteSelf env p st = (Inr m, st2)
             \<and> deleteManifestChildren env p m st2 = (Inl e, st'))
       \<or> (\<exists>p m st2 c st3 dt ts. po = Some p \<and> deleteSelf env p st = (Inr m, st2)
             \<and> deleteManifestChildren env p m st2 = (Inr c, st3)
             \<and> deleteReferrers self env dt ts c st3 = Some (r, st'))"
  using run unfolding deleteImageBody_def
  by (auto split: option.splits if_splits sum.splits prod.splits)

lemma deleteImageBody_deleted_mono:
  assumes self: "\<And>p s r s'. self p s = Some (r, s') \<Longrightarrow> set (deleted s) \<subseteq> set (deleted s')"
    and run: "deleteImageBody self env po st = Some (r, st')"
  shows "set (deleted st) \<subseteq> set (deleted st')"
proof -
  have refs: "\<And>dt ts c s. deleteReferrers self env dt ts c s = Some (r, st') \<Longrightarrow>
                set (deleted s) \<subseteq> set (deleted st')"
    using self by (rule deleteReferrers_deleted_mono)
  from deleteImageBody_cases[OF run] show ?thesis
    by (elim disjE exE conjE)
       (auto dest!: deleteSelf_deleted(1) deleteManifestChildren_deleted_mono refs)
qed

lemma deleteImage_deleted_mono:
  "deleteImage depth env po st = Some (r, st') \<Longrightarrow> set (deleted st) \<subseteq> set (deleted st')"
proof (induction depth arbitrary: po st r st')
  case 0
  then show ?case by simp
next
  case (Suc depth)
  from Suc.prems have "deleteImageBody (deleteImage depth env) env po st = Some (r, st')"
    by simp
  then show ?case
    by (rule deleteImageBody_deleted_mono[rotated]) (rule Suc.IH)
qed

text \<open>A call that returns normally leaves the digest of its package in the \<open>deleted\<close> set.\<close>

lemma deleteImage_marks_deleted:
  assumes "deleteImage depth env (Some p) st = Some (Inr c, st')"
  shows "name p \<in> set (deleted st')"
proof (cases depth)
  case 0
  with assms show ?thesis by simp
next
  case (Suc k)
  with assms have run: "deleteImageBody (deleteImage k env) env (Some p) st = Some (Inr c, st')"
    by simp
  show ?thesis
  proof (cases "name p \<in> set (deleted st)")
    case True
    with run show ?thesis by (simp add: deleteImageBody_def)
  next
    case False
    with run obtain m st2 cc st3 dt ts where
      a: "deleteSelf env p st = (Inr m, st2)"
      and b: "deleteManifestChildren env p m st2 = (Inr cc, st3)"
      and c: "deleteReferrers (deleteImage k env) env dt ts cc st3 = Some (Inr c, st')"
      unfolding deleteImageBody_def
      by (auto split: sum.splits prod.splits)
    have "name p \<in> set (deleted st2)" using a by (rule deleteSelf_deleted(2))
    moreover have "set (deleted st2) \<subseteq> set (deleted st3)"
      using b by (rule deleteManifestChildren_deleted_mono)
    moreover have "set (deleted st3) \<subseteq> set (deleted st')"
      using c by (rule deleteReferrers_deleted_mono[rotated]) (rule deleteImage_deleted_mono)
    ultimately show ?thesis by blast
  qed
qed














text \<open>
  A pass that returns normally passes no digest to \<open>deletePackageVersion\<close> twice: every
  delete call is preceded by the test of the \<open>deleted\<close> set and followed by the entry
  into it.
\<close>

lemma deletedDigests_append:
  "deletedDigests (xs @ ys) = deletedDigests xs @ deletedDigests ys"
  by (induction xs rule: deletedDigests.induct) auto

lemma forEach_inv:
  assumes step: "\<And>x acc s a s'. body x acc s = (Inr a, s') \<Longrightarrow> I s \<Longrightarrow> I s'"
  shows "forEach body xs acc st = (Inr a, st') \<Longrightarrow> I st \<Longrightarrow> I st'"
proof (induction xs arbitrary: acc st)
  case Nil
  then show ?case by simp
next
  case (Cons x xs)
  obtain r1 s1 where b: "body x acc st = (r1, s1)" by (cases "body x acc st")
  show ?case
  proof (cases r1)
    case (Inl e)
    with Cons.prems(1) b show ?thesis by simp
  next
    case (Inr a1)
    with b Cons.prems(2) have "I s1" by (auto dest: step)
    moreover from Inr Cons.prems(1) b have "forEach body xs a1 s1 = (Inr a, st')" by simp
    ultimately show ?thesis by (rule Cons.IH[rotated])
  qed
qed

lemma forEachCut_inv:
  assumes step: "\<And>x acc s a s'. body x acc s = Some (Inr a, s') \<Longrightarrow> I s \<Longrightarrow> I s'"
  shows "forEachCut body xs acc st = Some (Inr a, st') \<Longrightarrow> I st \<Longrightarrow> I st'"
proof (induction xs arbitrary: acc st)
  case Nil
  then show ?case by simp
next
  case (Cons x xs)
  from Cons.prems(1) obtain r1 s1 where b: "body x acc st = Some (r1, s1)"
    by (cases "body x acc st") auto
  show ?case
  proof (cases r1)
    case (Inl e)
    with Cons.prems(1) b show ?thesis by simp
  next
    case (Inr a1)
    with b Cons.prems(2) have "I s1" by (auto dest: step)
    moreover from Inr Cons.prems(1) b have "forEachCut body xs a1 s1 = Some (Inr a, st')"
      by simp
    ultimately show ?thesis by (rule Cons.IH[rotated])
  qed
qed

lemma deleteChild_once:
  "deleteChild env P im n st = (Inr k, st') \<Longrightarrow> deletedOnce st \<Longrightarrow> deletedOnce st'"
  unfolding deleteChild_def Let_def deletedOnce_def
  by (auto simp: deletedDigests_append js_add_def split: option.splits if_splits sum.splits)

lemma deleteChildren_once:
  "deleteChildren env P ms n st = (Inr k, st') \<Longrightarrow> deletedOnce st \<Longrightarrow> deletedOnce st'"
  unfolding deleteChildren_def
  by (erule forEach_inv[rotated]) (auto dest: deleteChild_once)

lemma deleteSelf_once:
  "deleteSelf env p st = (Inr m, st') \<Longrightarrow> name p \<notin> set (deleted st) \<Longrightarrow>
   deletedOnce st \<Longrightarrow> deletedOnce st'"
  unfolding deleteSelf_def Let_def deletedOnce_def
  by (auto simp: deletedDigests_append js_add_def split: sum.splits)

lemma deleteManifestChildren_once:
  "deleteManifestChildren env p m st = (Inr c, st') \<Longrightarrow> deletedOnce st \<Longrightarrow> deletedOnce st'"
  unfolding deleteManifestChildren_def
  by (auto split: option.splits prod.splits sum.splits dest: deleteChildren_once)

lemma deleteReferrer_once:
  assumes self: "\<And>p s c s'. self p s = Some (Inr c, s') \<Longrightarrow> deletedOnce s \<Longrightarrow> deletedOnce s'"
    and run: "deleteReferrer self env dt t acc st = Some (Inr a, st')"
    and inv: "deletedOnce st"
  shows "deletedOnce st'"
proof -
  have "st' = st \<or> (\<exists>ap c. self (Some ap) st = Some (Inr c, st'))"
    using run unfolding deleteReferrer_def
    by (auto split: if_splits option.splits sum.splits prod.splits)
  then show ?thesis using self inv by blast
qed

lemma deleteReferrers_once:
  assumes self: "\<And>p s c s'. self p s = Some (Inr c, s') \<Longrightarrow> deletedOnce s \<Longrightarrow> deletedOnce s'"
    and run: "deleteReferrers self env dt ts acc st = Some (Inr a, st')"
    and inv: "deletedOnce st"
  shows "deletedOnce st'"
proof (rule forEachCut_inv[where I = deletedOnce])
  show "forEachCut (deleteReferrer self env dt) ts acc st = Some (Inr a, st')"
    using run by (simp add: deleteReferrers_def)
  show "\<And>x acc s a s'. deleteReferrer self env dt x acc s = Some (Inr a, s') \<Longrightarrow>
          deletedOnce s \<Longrightarrow> deletedOnce s'"
    using self by (rule deleteReferrer_once)
  show "deletedOnce st" by (rule inv)
qed

lemma deleteImageBody_once:
  assumes self: "\<And>p s c s'. self p s = Some (Inr c, s') \<Longrightarrow> deletedOnce s \<Longrightarrow> deletedOnce s'"
    and run: "deleteImageBody self env po st = Some (Inr c, st')"
    and inv: "deletedOnce st"
  shows "deletedOnce st'"
proof (cases "st' = st")
  case True
  with inv show ?thesis by simp
next
  case False
  with run obtain p m st2 cc st3 dt ts where
    po: "po = Some p" and fresh: "name p \<notin> set (deleted st)"
    and a: "deleteSelf env p st = (Inr m, st2)"
    and b: "deleteManifestChildren env p m st2 = (Inr cc, st3)"
    and r: "deleteReferrers self env dt ts cc st3 = Some (Inr c, st')"
    unfolding deleteImageBody_def
    by (auto split: option.splits if_splits sum.splits prod.splits)
  from deleteSelf_once[OF a fresh inv] have "deletedOnce st2" .
  with b have "deletedOnce st3" by (rule deleteManifestChildren_once)
  with self r show ?thesis by (rule deleteReferrers_once)
qed

lemma deleteImage_once:
  "deleteImage depth env po st = Some (Inr c, st') \<Longrightarrow> deletedOnce st \<Longrightarrow> deletedOnce st'"
proof (induction depth arbitrary: po st c st')
  case 0
  then show ?case by simp
next
  case (Suc depth)
  from Suc.prems(1) have "deleteImageBody (deleteImage depth env) env po st = Some (Inr c, st')"
    by simp
  with Suc.IH show ?case using Suc.prems(2) by (rule deleteImageBody_once)
qed

text \<open>A larger depth does not change a result that a smaller depth already gives.\<close>

lemma forEachCut_mono:
  assumes step: "\<And>x acc s r. body x acc s = Some r \<Longrightarrow> body' x acc s = Some r"
  shows "forEachCut body xs acc st = Some r \<Longrightarrow> forEachCut body' xs acc st = Some r"
proof (induction xs arbitrary: acc st)
  case Nil
  then show ?case by simp
next
  case (Cons x xs)
  from Cons.prems obtain r1 where b: "body x acc st = Some r1"
    by (cases "body x acc st") auto
  then have b': "body' x acc st = Some r1" by (rule step)
  show ?case
  proof (cases r1)
    case (Pair res s1)
    show ?thesis
    proof (cases res)
      case (Inl e)
      with Cons.prems b b' Pair show ?thesis by auto
    next
      case (Inr a1)
      with Cons.prems b Pair have "forEachCut body xs a1 s1 = Some r" by simp
      then have "forEachCut body' xs a1 s1 = Some r" by (rule Cons.IH)
      with b' Pair Inr show ?thesis by simp
    qed
  qed
qed

lemma deleteReferrer_mono:
  assumes self: "\<And>p s r. self p s = Some r \<Longrightarrow> self' p s = Some r"
  shows "deleteReferrer self env dt t acc st = Some r \<Longrightarrow>
         deleteReferrer self' env dt t acc st = Some r"
  unfolding deleteReferrer_def
  by (auto split: if_splits option.splits sum.splits prod.splits dest!: self)

lemma deleteImageBody_mono:
  assumes self: "\<And>p s r. self p s = Some r \<Longrightarrow> self' p s = Some r"
  shows "deleteImageBody self env po st = Some r \<Longrightarrow> deleteImageBody self' env po st = Some r"
proof -
  have refs: "\<And>dt ts acc s. deleteReferrers self env dt ts acc s = Some r \<Longrightarrow>
          deleteReferrers self' env dt ts acc s = Some r"
    unfolding deleteReferrers_def
    by (erule forEachCut_mono[rotated]) (rule deleteReferrer_mono[OF self])
  show "deleteImageBody self env po st = Some r \<Longrightarrow> deleteImageBody self' env po st = Some r"
    unfolding deleteImageBody_def
    by (auto split: option.splits if_splits sum.splits prod.splits dest: refs)
qed

lemma deleteImage_Suc:
  "deleteImage depth env po st = Some r \<Longrightarrow> deleteImage (Suc depth) env po st = Some r"
proof (induction depth arbitrary: po st r)
  case 0
  then show ?case by simp
next
  case (Suc depth)
  from Suc.prems have "deleteImageBody (deleteImage depth env) env po st = Some r" by simp
  then have "deleteImageBody (deleteImage (Suc depth) env) env po st = Some r"
    by (rule deleteImageBody_mono[rotated]) (rule Suc.IH)
  then show ?case by simp
qed

lemma deleteImage_more_depth:
  "deleteImage depth env po st = Some r \<Longrightarrow> deleteImage (depth + k) env po st = Some r"
  by (induction k) (auto dest: deleteImage_Suc)

text \<open>
  Claim C4. Once \<open>deleteImage\<close> has returned for a package, a second call on the same
  package in the same session (no \<open>reset\<close> in between) returns zero deleted and zero
  multi-arch deleted and leaves the state as it is, so it issues no call. And a call
  that returns normally, started in a session in which no digest has been deleted
  twice, ends in such a session: each package is deleted at most once.
\<close>

theorem deleteImage_second_call_is_noop:
  "(deleteImage depth env (Some p) st = Some (Inr counts, st') \<longrightarrow>
      deleteImage (Suc k) env (Some p) st' = Some (Inr (0, 0), st'))
   \<and> (deleteImage depth env po st = Some (Inr counts, st') \<and> deletedOnce st \<longrightarrow>
        deletedOnce st')"
  using deleteImage_marks_deleted[of depth env p st counts st']
    deleteImage_once[of depth env po st counts st']
  by (auto simp: deleteImageBody_def)

theorem deleteImage_second_call_is_noop_witness:
  "\<exists>st'. deleteImage 2 testEnv (Some pkgP) sessionA = Some (Inr (3, 1), st')
     \<and> deleteImage (Suc 0) testEnv (Some pkgP) st' = Some (Inr (0, 0), st')
     \<and> deletedOnce sessionA \<and> deletedOnce st'"
proof -
  obtain st' where first: "deleteImage 2 testEnv (Some pkgP) sessionA = Some (Inr (3, 1), st')"
    by (simp add: fixture_defs deleter_defs numeral_2_eq_2)
  have fresh: "deletedOnce sessionA"
    by (simp add: deletedOnce_def sessionA_def newSession_def)
  note main = deleteImage_second_call_is_noop[of 2 testEnv pkgP sessionA "(3, 1)" st' 0 "Some pkgP"]
  from main first fresh show ?thesis by blast
qed

subsection \<open>Image Deleter: untagging\<close>

lemmas untag_defs = pkgD1_def pkgD2_def storeU_def sessionU_def
  performUntagging_def untagEntry_def untagTag_def Let_def


lemma untagTag_single_noop:
  "getPackageByDigest env (world st) md = Some p \<Longrightarrow> length (tags p) \<le> 1 \<Longrightarrow>
   untagTag env md t u st = (Inr (), st)"
  by (simp add: untagTag_def)






lemma untagTags_single_noop:
  "getPackageByDigest env (world st) md = Some p \<Longrightarrow> length (tags p) \<le> 1 \<Longrightarrow>
   forEach (untagTag env md) ts u st = (Inr (), st)"
  by (induction ts) (simp_all add: untagTag_single_noop)

lemma untagAll_single_noop:
  "(\<forall>e \<in> set ops. \<exists>p. getPackageByDigest env (world st) (fst e) = Some p
        \<and> length (tags p) \<le> 1) \<Longrightarrow>
   forEach (untagEntry env) ops u st = (Inr (), st)"
proof (induction ops)
  case Nil
  then show ?case by simp
next
  case (Cons e ops)
  then obtain p where "getPackageByDigest env (world st) (fst e) = Some p" "length (tags p) \<le> 1"
    by auto
  then have "untagEntry env e u st = (Inr (), st)"
    by (simp add: untagEntry_def untagTags_single_noop)
  with Cons show ?case by simp
qed

lemma performUntagging_single_noop:
  "(\<forall>e \<in> set ops. \<exists>p. getPackageByDigest env (world st) (fst e) = Some p
        \<and> length (tags p) \<le> 1) \<Longrightarrow>
   performUntagging env ops st = (Inr (ops \<noteq> []), st)"
  by (simp add: performUntagging_def untagAll_single_noop)

lemma performUntagging_false_iff:
  "(fst (performUntagging env ops st) = Inr False) = (ops = [])"
  by (auto simp: performUntagging_def split: prod.splits sum.splits)






text \<open>
  Claim C6, as amended. The result of \<open>performUntagging\<close> reports whether there was
  anything to untag: it is false exactly when the untag-operations map is empty (and
  then nothing changes). On a non-empty map in which every target package has at most
  one tag, no write is issued, the state is unchanged, and the result is true.
\<close>

theorem performUntagging_result:
  "(fst (performUntagging env ops st) = Inr False) = (ops = [])
   \<and> (ops = [] \<longrightarrow> performUntagging env ops st = (Inr False, st))
   \<and> (ops \<noteq> [] \<and> (\<forall>e \<in> set ops. \<exists>p. getPackageByDigest env (world st) (fst e) = Some p
                                  \<and> length (tags p) \<le> 1) \<longrightarrow>
        performUntagging env ops st = (Inr True, st))"
  using performUntagging_false_iff[of env ops st] performUntagging_single_noop[of ops env st]
  by (auto simp: performUntagging_def)

theorem performUntagging_result_witness:
  "getPackageByDigest testEnv (world sessionU) ''sha256:d2'' = Some pkgD2
   \<and> length (tags pkgD2) \<le> 1
   \<and> performUntagging testEnv [(''sha256:d2'', [''v2.0''])] sessionU = (Inr True, sessionU)
   \<and> performUntagging testEnv [] sessionU = (Inr False, sessionU)"
proof -
  have p: "getPackageByDigest testEnv (world sessionU) ''sha256:d2'' = Some pkgD2"
    and l: "length (tags pkgD2) \<le> 1"
    by (simp_all add: fixture_defs untag_defs)
  then have h: "\<forall>e \<in> set [(''sha256:d2'', [''v2.0''])].
         \<exists>p. getPackageByDigest testEnv (world sessionU) (fst e) = Some p \<and> length (tags p) \<le> 1"
    by simp
  have ne: "[(''sha256:d2'', [''v2.0''])] \<noteq> ([] :: (digest \<times> tag list) list)" by simp
  from performUntagging_result[of testEnv "[(''sha256:d2'', [''v2.0''])]" sessionU]
    performUntagging_result[of testEnv "[]" sessionU] h ne p l
  show ?thesis by blast
qed

text \<open>
  Claim C6 as stated fails: on the non-empty map that asks to untag the only tag of
  \<open>D2\<close>, no write is issued (the state is unchanged) and the result is true.
\<close>

theorem performUntagging_no_write_counterexample:
  "performUntagging testEnv [(''sha256:d2'', [''v2.0''])] sessionU = (Inr True, sessionU)"
  by (simp add: fixture_defs untag_defs)



subsection \<open>Manifest Analyzer and Image Validator on explicit repositories\<close>

text \<open>
  Claim C2 (code defect). In the repository of scenario B both \<open>P\<close> and \<open>Q\<close> are index
  manifests that list \<open>C1\<close>, and \<open>C1\<close> is in the Package Index. The map returned by
  \<open>loadDigestUsedByMap\<close> holds only \<open>P\<close> in the used-by set of \<open>C1\<close>: handling \<open>P\<close>
  removed \<open>C1\<close> from the set that the test for existing packages reads, so \<open>Q\<close> is never
  recorded. With this map, deleting \<open>P\<close> deletes \<open>C1\<close> although \<open>Q\<close> still lists it.
\<close>

theorem loadDigestUsedByMap_drops_second_parent:
  "loadedMap (loadDigestUsedByMap testEnv storeB) ''sha256:c1'' = Some [''sha256:p'']
   \<and> loadedMap (loadDigestUsedByMap testEnv storeB) ''sha256:c2'' = Some [''sha256:p'']
   \<and> outcome (deleteImages 2 testEnv [''sha256:p'']
         (newSession storeB (loadedMap (loadDigestUsedByMap testEnv storeB)))) =
       Some (Inr (3, 1),
             [DeletePackageVersion 1 ''sha256:p'' [''latest''] None,
              DeletePackageVersion 2 ''sha256:c1'' [] (Some []),
              DeletePackageVersion 3 ''sha256:c2'' [] (Some [])],
             [''sha256:p'', ''sha256:c1'', ''sha256:c2''])"
  by (simp add: fixture_defs deleter_defs loadedMap_def loadDigestUsedByMap_def numeral_2_eq_2)

text \<open>
  What the two validator loops add to their result: the digests of the candidate set
  whose manifest has a \<open>manifests\<close> list with every child missing, and with some child
  missing.
\<close>

lemma all_missing_iff: "(length (filter Q xs) = length xs) = list_all Q xs"
proof (induction xs)
  case Nil
  then show ?case by simp
next
  case (Cons x xs)
  have le: "length (filter Q xs) \<le> length xs" by simp
  show ?case
  proof (cases "Q x")
    case True
    with Cons show ?thesis by simp
  next
    case False
    from le have "length (filter Q xs) \<noteq> Suc (length xs)" by arith
    with False show ?thesis by simp
  qed
qed

lemma findGhostLoop_mem:
  "findGhostLoop env w fs acc = Inr gs \<Longrightarrow>
   set gs = set acc \<union>
     {d \<in> set fs. \<exists>m ms. getManifestByDigest env w d = Inr m \<and> manifests m = Some ms
                      \<and> list_all (childMissing env w) ms}"
proof (induction fs arbitrary: acc)
  case Nil
  then show ?case by simp
next
  case (Cons d fs)
  from Cons.prems obtain m where m: "getManifestByDigest env w d = Inr m"
    by (auto split: sum.splits)
  show ?case
  proof (cases "manifests m")
    case None
    with Cons.prems m have "findGhostLoop env w fs acc = Inr gs" by simp
    from Cons.IH[OF this] None m show ?thesis by auto
  next
    case (Some ms)
    show ?thesis
    proof (cases "list_all (childMissing env w) ms")
      case True
      with Cons.prems m Some have "findGhostLoop env w fs (js_add d acc) = Inr gs"
        by (auto simp: all_missing_iff split: option.splits)
      from Cons.IH[OF this] True Some m show ?thesis by (auto simp: js_add_def split: if_splits)
    next
      case False
      with Cons.prems m Some have "findGhostLoop env w fs acc = Inr gs"
        by (simp add: all_missing_iff)
      from Cons.IH[OF this] False Some m show ?thesis by auto
    qed
  qed
qed

lemma findPartialLoop_mem:
  "findPartialLoop env w fs acc = Inr ps \<Longrightarrow>
   set ps = set acc \<union>
     {d \<in> set fs. \<exists>m ms. getManifestByDigest env w d = Inr m \<and> manifests m = Some ms
                      \<and> list_ex (childMissing env w) ms}"
proof (induction fs arbitrary: acc)
  case Nil
  then show ?case by simp
next
  case (Cons d fs)
  from Cons.prems obtain m where m: "getManifestByDigest env w d = Inr m"
    by (auto split: sum.splits)
  show ?case
  proof (cases "manifests m")
    case None
    with Cons.prems m have "findPartialLoop env w fs acc = Inr ps" by simp
    from Cons.IH[OF this] None m show ?thesis by auto
  next
    case (Some ms)
    show ?thesis
    proof (cases "list_ex (childMissing env w) ms")
      case True
      with Cons.prems m Some have "findPartialLoop env w fs (js_add d acc) = Inr ps"
        by (auto split: option.splits)
      from Cons.IH[OF this] True Some m show ?thesis by (auto simp: js_add_def split: if_splits)
    next
      case False
      with Cons.prems m Some have "findPartialLoop env w fs acc = Inr ps" by simp
      from Cons.IH[OF this] False Some m show ?thesis by auto
    qed
  qed
qed

lemma findGhostLoop_returns:
  "\<forall>x \<in> set fs. (\<exists>m. getManifestByDigest env w x = Inr m) \<and> getPackageByDigest env w x \<noteq> None \<Longrightarrow>
   \<exists>gs. findGhostLoop env w fs acc = Inr gs"
  by (induction fs arbitrary: acc) (auto split: option.splits)

lemma findPartialLoop_returns:
  "\<forall>x \<in> set fs. (\<exists>m. getManifestByDigest env w x = Inr m) \<and> getPackageByDigest env w x \<noteq> None \<Longrightarrow>
   \<exists>ps. findPartialLoop env w fs acc = Inr ps"
  by (induction fs arbitrary: acc) (auto split: option.splits)

text \<open>
  Claim C9, as amended. \<open>findPartialImages\<close> flags a digest of the candidate set
  exactly when its manifest has a \<open>manifests\<close> list of which at least one child is
  absent from the Package Index, also when all of them are; \<open>findGhostImages\<close> flags it
  exactly when all children are absent. So every ghost image whose manifest lists at
  least one child is also in the result of \<open>findPartialImages\<close>: the two results are
  not disjoint. Both return when every candidate has a manifest and a package record.
\<close>

theorem findPartialImages_contains_ghosts:
  "(findPartialImages env w fs = Inr ps \<longrightarrow>
      (d \<in> set ps) =
        (d \<in> set fs \<and> (\<exists>m ms. getManifestByDigest env w d = Inr m \<and> manifests m = Some ms
                            \<and> list_ex (childMissing env w) ms)))
   \<and> (findGhostImages env w fs = Inr gs \<longrightarrow>
        (d \<in> set gs) =
          (d \<in> set fs \<and> (\<exists>m ms. getManifestByDigest env w d = Inr m \<and> manifests m = Some ms
                              \<and> list_all (childMissing env w) ms)))
   \<and> (findPartialImages env w fs = Inr ps \<and> findGhostImages env w fs = Inr gs
        \<and> d \<in> set gs \<and> getManifestByDigest env w d = Inr dm \<and> manifests dm = Some dms
        \<and> dms \<noteq> [] \<longrightarrow>
        d \<in> set ps)
   \<and> ((\<forall>x \<in> set fs. (\<exists>m. getManifestByDigest env w x = Inr m)
                     \<and> getPackageByDigest env w x \<noteq> None) \<longrightarrow>
        (\<exists>gs' ps'. findGhostImages env w fs = Inr gs' \<and> findPartialImages env w fs = Inr ps'))"
proof -
  have partial: "(d \<in> set ps) =
        (d \<in> set fs \<and> (\<exists>m ms. getManifestByDigest env w d = Inr m \<and> manifests m = Some ms
                            \<and> list_ex (childMissing env w) ms))"
    if "findPartialImages env w fs = Inr ps"
    using findPartialLoop_mem[of env w fs "[]" ps] that by (simp add: findPartialImages_def)
  have ghost: "(d \<in> set gs) =
          (d \<in> set fs \<and> (\<exists>m ms. getManifestByDigest env w d = Inr m \<and> manifests m = Some ms
                              \<and> list_all (childMissing env w) ms))"
    if "findGhostImages env w fs = Inr gs"
    using findGhostLoop_mem[of env w fs "[]" gs] that by (simp add: findGhostImages_def)
  have both: "d \<in> set ps"
    if h: "findPartialImages env w fs = Inr ps \<and> findGhostImages env w fs = Inr gs
        \<and> d \<in> set gs \<and> getManifestByDigest env w d = Inr dm \<and> manifests dm = Some dms
        \<and> dms \<noteq> []"
  proof -
    from h ghost have "d \<in> set fs" "list_all (childMissing env w) dms" by auto
    moreover from this(2) h have "list_ex (childMissing env w) dms"
      by (cases dms) simp_all
    ultimately show ?thesis using h partial by auto
  qed
  have returns: "\<exists>gs' ps'. findGhostImages env w fs = Inr gs' \<and> findPartialImages env w fs = Inr ps'"
    if "\<forall>x \<in> set fs. (\<exists>m. getManifestByDigest env w x = Inr m)
                     \<and> getPackageByDigest env w x \<noteq> None"
    using findGhostLoop_returns[OF that, of "[]"] findPartialLoop_returns[OF that, of "[]"]
    by (simp add: findGhostImages_def findPartialImages_def)
  from partial ghost both returns show ?thesis by blast
qed

theorem findPartialImages_contains_ghosts_witness:
  "findGhostImages testEnv storeG [''sha256:ghost1''] = Inr [''sha256:ghost1'']
   \<and> findPartialImages testEnv storeG [''sha256:ghost1''] = Inr [''sha256:ghost1'']
   \<and> getManifestByDigest testEnv storeG ''sha256:ghost1'' =
       Inr (indexManifest [''sha256:x1'', ''sha256:x2''])
   \<and> getPackageByDigest testEnv storeG ''sha256:ghost1'' = Some pkgGhost
   \<and> list_all (childMissing testEnv storeG) [child ''sha256:x1'', child ''sha256:x2'']
   \<and> list_ex (childMissing testEnv storeG) [child ''sha256:x1'', child ''sha256:x2'']
   \<and> ''sha256:ghost1'' \<in> set [''sha256:ghost1'']"
proof -
  let ?fs = "[''sha256:ghost1'']"
  have g: "findGhostImages testEnv storeG ?fs = Inr ?fs"
    and p: "findPartialImages testEnv storeG ?fs = Inr ?fs"
    and m: "getManifestByDigest testEnv storeG ''sha256:ghost1'' =
              Inr (indexManifest [''sha256:x1'', ''sha256:x2''])"
    and ms: "manifests (indexManifest [''sha256:x1'', ''sha256:x2'']) =
               Some [child ''sha256:x1'', child ''sha256:x2'']"
    and ne: "[child ''sha256:x1'', child ''sha256:x2''] \<noteq> []"
    and pk: "getPackageByDigest testEnv storeG ''sha256:ghost1'' = Some pkgGhost"
    by (simp_all add: fixture_defs pkgGhost_def storeG_def findGhostImages_def
          findPartialImages_def childMissing_def idTruthy_def js_add_def)
  have pre: "\<forall>x \<in> set ?fs. (\<exists>m. getManifestByDigest testEnv storeG x = Inr m)
                     \<and> getPackageByDigest testEnv storeG x \<noteq> None"
    using m pk by simp
  have mem: "''sha256:ghost1'' \<in> set ?fs" by simp
  note main = findPartialImages_contains_ghosts
  from main[of testEnv storeG ?fs ?fs "''sha256:ghost1''", THEN conjunct1] p m ms
  have 1: "list_ex (childMissing testEnv storeG) [child ''sha256:x1'', child ''sha256:x2'']"
    by auto
  from main[of testEnv storeG ?fs _ "''sha256:ghost1''" ?fs, THEN conjunct2, THEN conjunct1] g m ms
  have 2: "list_all (childMissing testEnv storeG) [child ''sha256:x1'', child ''sha256:x2'']"
    by auto
  from main[of testEnv storeG ?fs ?fs "''sha256:ghost1''" ?fs
               "indexManifest [''sha256:x1'', ''sha256:x2'']"
               "[child ''sha256:x1'', child ''sha256:x2'']",
            THEN conjunct2, THEN conjunct2, THEN conjunct1] p g mem m ms ne
  have 3: "''sha256:ghost1'' \<in> set ?fs" by blast
  from main[of testEnv storeG ?fs, THEN conjunct2, THEN conjunct2, THEN conjunct2] pre
  have 4: "\<exists>gs' ps'. findGhostImages testEnv storeG ?fs = Inr gs'
              \<and> findPartialImages testEnv storeG ?fs = Inr ps'"
    by blast
  from g p m pk 1 2 3 show ?thesis by blast
qed

text \<open>
  Claim C9 as stated fails: in scenario D, where neither child of \<open>ghost1\<close> is present,
  \<open>findGhostImages\<close> returns \<open>{ghost1}\<close> and \<open>findPartialImages\<close> returns \<open>{ghost1}\<close> as
  well, not the empty set.
\<close>

theorem findPartialImages_not_disjoint_counterexample:
  "findGhostImages testEnv storeG [''sha256:ghost1''] = Inr [''sha256:ghost1'']
   \<and> findPartialImages testEnv storeG [''sha256:ghost1''] = Inr [''sha256:ghost1'']"
  by (simp add: fixture_defs pkgGhost_def storeG_def findGhostImages_def findPartialImages_def
        childMissing_def idTruthy_def js_add_def)

subsection \<open>Deletion Strategy: tag deletions\<close>

lemmas tag_defs = pkgD1_def pkgD2_def pkgD3_def storeT_def plainRuntime_def tagConfig_def
  processTagDeletions_def expandTags_def matchAll_def classifyTag_def stageTag_def
  js_add_def js_delete_def

text \<open>
  Once a tag is recorded for untagging, or a tag is among the standard deletions, it
  stays so through the rest of the first loop; the second loop only adds to the
  delete-set and only removes from the filter set.
\<close>

lemma pushTag_records: "\<exists>tgs. (d, tgs) \<in> set (pushTag d t ops) \<and> t \<in> set tgs"
  by (induction d t ops rule: pushTag.induct) auto

lemma pushTag_keeps:
  "(d, tgs) \<in> set ops \<Longrightarrow> t \<in> set tgs \<Longrightarrow> \<exists>tgs'. (d, tgs') \<in> set (pushTag d' t' ops) \<and> t \<in> set tgs'"
  by (induction d' t' ops rule: pushTag.induct) auto

lemma classifyTag_keeps:
  assumes "classifyTag env w ex x acc = Inr acc'"
  shows "set (fst acc) \<subseteq> set (fst acc')"
    and "(d, tgs) \<in> set (snd acc) \<Longrightarrow> t \<in> set tgs \<Longrightarrow> \<exists>tgs'. (d, tgs') \<in> set (snd acc') \<and> t \<in> set tgs'"
  using assms pushTag_keeps[of d tgs "snd acc" t]
  unfolding classifyTag_def
  by (auto simp: js_add_def split: if_splits option.splits)

lemma classifyTags_keeps:
  "classifyTags env w ex ts acc = Inr acc' \<Longrightarrow>
   set (fst acc) \<subseteq> set (fst acc')
   \<and> ((d, tgs) \<in> set (snd acc) \<longrightarrow> t \<in> set tgs \<longrightarrow> (\<exists>tgs'. (d, tgs') \<in> set (snd acc') \<and> t \<in> set tgs'))"
proof (induction ts arbitrary: acc tgs)
  case Nil
  then show ?case by auto
next
  case (Cons x ts)
  from Cons.prems obtain acc1 where s: "classifyTag env w ex x acc = Inr acc1"
    and r: "classifyTags env w ex ts acc1 = Inr acc'"
    by (auto split: sum.splits)
  from classifyTag_keeps[OF s] Cons.IH[OF r] show ?case by blast
qed

lemma classifyTags_untag:
  assumes "classifyTags env w ex ts acc = Inr acc'"
    and "t \<in> set ts" "t \<notin> set ex" "\<not> prefix ''sha256:'' t"
    and "getDigestByTag env w t = Some d" "d \<noteq> []"
    and "getPackageByDigest env w d = Some p" "1 < length (tags p)"
  shows "\<exists>tgs. (d, tgs) \<in> set (snd acc') \<and> t \<in> set tgs"
  using assms(1,2)
proof (induction ts arbitrary: acc)
  case Nil
  then show ?case by simp
next
  case (Cons x ts)
  from Cons.prems(1) obtain acc1 where s: "classifyTag env w ex x acc = Inr acc1"
    and r: "classifyTags env w ex ts acc1 = Inr acc'"
    by (auto split: sum.splits)
  show ?case
  proof (cases "x = t")
    case True
    with s assms(3-) have "snd acc1 = pushTag d t (snd acc)"
      by (auto simp: classifyTag_def)
    with pushTag_records[of d t "snd acc"]
    obtain tgs where "(d, tgs) \<in> set (snd acc1)" "t \<in> set tgs" by auto
    with classifyTags_keeps[OF r, of d tgs t] show ?thesis by blast
  next
    case False
    with Cons.prems(2) have "t \<in> set ts" by simp
    with Cons.IH[OF r] show ?thesis by simp
  qed
qed

lemma classifyTags_standard:
  assumes "classifyTags env w ex ts acc = Inr acc'"
    and "t \<in> set ts" "t \<notin> set ex"
    and "prefix ''sha256:'' t \<or> (\<exists>d p. getDigestByTag env w t = Some d \<and> d \<noteq> []
            \<and> getPackageByDigest env w d = Some p \<and> length (tags p) = 1)"
  shows "t \<in> set (fst acc')"
  using assms(1,2)
proof (induction ts arbitrary: acc)
  case Nil
  then show ?case by simp
next
  case (Cons x ts)
  from Cons.prems(1) obtain acc1 where s: "classifyTag env w ex x acc = Inr acc1"
    and r: "classifyTags env w ex ts acc1 = Inr acc'"
    by (auto split: sum.splits)
  show ?case
  proof (cases "x = t")
    case True
    with s assms(3-) have "t \<in> set (fst acc1)"
      by (auto simp: classifyTag_def js_add_def split: if_splits)
    with classifyTags_keeps[OF r, of undefined undefined undefined] show ?thesis by blast
  next
    case False
    with Cons.prems(2) have "t \<in> set ts" by simp
    with Cons.IH[OF r] show ?thesis by simp
  qed
qed

lemma stageTag_mono:
  "set (fst acc) \<subseteq> set (fst (stageTag env w x acc))
   \<and> set (snd (stageTag env w x acc)) \<subseteq> set (snd acc)"
  by (auto simp: stageTag_def js_add_def js_delete_def split: option.splits)

lemma fold_stageTag_mono:
  "set (fst acc) \<subseteq> set (fst (fold (stageTag env w) ts acc))
   \<and> set (snd (fold (stageTag env w) ts acc)) \<subseteq> set (snd acc)"
proof (induction ts arbitrary: acc)
  case Nil
  then show ?case by simp
next
  case (Cons x ts)
  from stageTag_mono[of acc env w x] Cons.IH[of "stageTag env w x acc"]
  show ?case by simp blast
qed

lemma fold_stageTag_staged:
  assumes "t \<in> set ts"
    and "(if prefix ''sha256:'' t then Some t else getDigestByTag env w t) = Some d" "d \<noteq> []"
  shows "d \<in> set (fst (fold (stageTag env w) ts acc))
       \<and> d \<notin> set (snd (fold (stageTag env w) ts acc))"
  using assms(1)
proof (induction ts arbitrary: acc)
  case Nil
  then show ?case by simp
next
  case (Cons x ts)
  show ?case
  proof (cases "t \<in> set ts")
    case True
    with Cons.IH show ?thesis by simp
  next
    case False
    with Cons.prems have "x = t" by simp
    with assms(2,3) have "d \<in> set (fst (stageTag env w x acc))"
      "d \<notin> set (snd (stageTag env w x acc))"
      by (auto simp: stageTag_def js_add_def js_delete_def)
    with fold_stageTag_mono[of "stageTag env w x acc" env w ts] show ?thesis by auto
  qed
qed

lemma processTagDeletions_cases:
  assumes run: "processTagDeletions rt env w cfg fs ex = Inr (pl, fs')"
    and mt: "expandTags rt env w cfg fs = Inr matchTags"
  shows "(matchTags = [] \<and> deleteSet pl = [] \<and> fs' = fs)
       \<or> (\<exists>std ops. classifyTags env w ex matchTags ([], []) = Inr (std, ops)
             \<and> untagOperations pl = ops
             \<and> (if std \<noteq> [] \<and> keepNtagged cfg = None
                 then (deleteSet pl, fs') = fold (stageTag env w) std ([], fs)
                 else deleteSet pl = [] \<and> fs' = fs))"
proof (cases "deleteTags cfg = None \<or> deleteTags cfg = Some []")
  case True
  with mt have "matchTags = []" by (auto simp: expandTags_def)
  with run True show ?thesis by (auto simp: processTagDeletions_def)
next
  case False
  show ?thesis
  proof (cases "matchTags = []")
    case True
    with run False mt show ?thesis by (auto simp: processTagDeletions_def)
  next
    case ne: False
    from run False mt ne obtain std ops where
      cl: "classifyTags env w ex matchTags ([], []) = Inr (std, ops)"
      by (cases "classifyTags env w ex matchTags ([], [])")
         (auto simp: processTagDeletions_def)
    obtain a b where f: "fold (stageTag env w) std ([], fs) = (a, b)"
      by (cases "fold (stageTag env w) std ([], fs)")
    show ?thesis
    proof (cases "std \<noteq> [] \<and> keepNtagged cfg = None")
      case True
      with run False mt ne cl f have "pl = \<lparr>deleteSet = a, untagOperations = ops\<rparr>" "fs' = b"
        by (simp_all add: processTagDeletions_def)
      with cl f True show ?thesis by auto
    next
      case False
      with run \<open>\<not> (deleteTags cfg = None \<or> deleteTags cfg = Some [])\<close> mt ne cl
      have "pl = \<lparr>deleteSet = [], untagOperations = ops\<rparr>" "fs' = fs"
        by (simp_all add: processTagDeletions_def)
      with cl False show ?thesis by auto
    qed
  qed
qed

lemma processTagDeletions_main:
  assumes run: "processTagDeletions rt env w cfg fs ex = Inr (pl, fs')"
    and mt: "expandTags rt env w cfg fs = Inr matchTags"
  shows "(keepNtagged cfg \<noteq> None \<longrightarrow> deleteSet pl = [] \<and> fs' = fs)
   \<and> (\<forall>t \<in> set matchTags. t \<notin> set ex \<longrightarrow>
        (\<not> prefix ''sha256:'' t \<longrightarrow>
           (\<forall>d p. getDigestByTag env w t = Some d \<and> d \<noteq> []
                  \<and> getPackageByDigest env w d = Some p \<and> 1 < length (tags p) \<longrightarrow>
                  (\<exists>tgs. (d, tgs) \<in> set (untagOperations pl) \<and> t \<in> set tgs)))
      \<and> (keepNtagged cfg = None \<longrightarrow>
            (prefix ''sha256:'' t \<longrightarrow> t \<in> set (deleteSet pl) \<and> t \<notin> set fs')
          \<and> (\<not> prefix ''sha256:'' t \<longrightarrow>
               (\<forall>d p. getDigestByTag env w t = Some d \<and> d \<noteq> []
                      \<and> getPackageByDigest env w d = Some p \<and> length (tags p) = 1 \<longrightarrow>
                      d \<in> set (deleteSet pl) \<and> d \<notin> set fs'))))"
proof -
  from processTagDeletions_cases[OF run mt] show ?thesis
  proof (elim disjE exE conjE)
    assume "matchTags = []" "deleteSet pl = []" "fs' = fs"
    then show ?thesis by simp
  next
    fix std ops
    assume cl: "classifyTags env w ex matchTags ([], []) = Inr (std, ops)"
      and ops: "untagOperations pl = ops"
      and st: "if std \<noteq> [] \<and> keepNtagged cfg = None
                 then (deleteSet pl, fs') = fold (stageTag env w) std ([], fs)
                 else deleteSet pl = [] \<and> fs' = fs"
    have keep: "keepNtagged cfg \<noteq> None \<longrightarrow> deleteSet pl = [] \<and> fs' = fs"
      using st by auto
    have untag: "\<exists>tgs. (d, tgs) \<in> set (untagOperations pl) \<and> t \<in> set tgs"
      if "t \<in> set matchTags" "t \<notin> set ex" "\<not> prefix ''sha256:'' t"
        "getDigestByTag env w t = Some d" "d \<noteq> []"
        "getPackageByDigest env w d = Some p" "1 < length (tags p)" for t d p
      using classifyTags_untag[OF cl that] ops by simp
    have staged: "d \<in> set (deleteSet pl) \<and> d \<notin> set fs'"
      if none: "keepNtagged cfg = None" and t: "t \<in> set matchTags" "t \<notin> set ex"
        and std: "prefix ''sha256:'' t \<or> (\<exists>d p. getDigestByTag env w t = Some d \<and> d \<noteq> []
            \<and> getPackageByDigest env w d = Some p \<and> length (tags p) = 1)"
        and d: "(if prefix ''sha256:'' t then Some t else getDigestByTag env w t) = Some d"
          "d \<noteq> []" for t d
    proof -
      have mem: "t \<in> set std" using classifyTags_standard[OF cl t std] by simp
      then have "std \<noteq> []" by auto
      with st none have eq: "fold (stageTag env w) std ([], fs) = (deleteSet pl, fs')" by simp
      from fold_stageTag_staged[OF mem d, of "([], fs)"] eq show ?thesis by simp
    qed
    have raw: "t \<in> set (deleteSet pl) \<and> t \<notin> set fs'"
      if "keepNtagged cfg = None" "t \<in> set matchTags" "t \<notin> set ex" "prefix ''sha256:'' t" for t
    proof -
      from that(4) have "t \<noteq> []" by auto
      with staged[OF that(1,2,3), of t] that(4) show ?thesis by simp
    qed
    have single: "d \<in> set (deleteSet pl) \<and> d \<notin> set fs'"
      if "keepNtagged cfg = None" "t \<in> set matchTags" "t \<notin> set ex" "\<not> prefix ''sha256:'' t"
        "getDigestByTag env w t = Some d" "d \<noteq> []"
        "getPackageByDigest env w d = Some p" "length (tags p) = 1" for t d p
      using staged[OF that(1,2,3), of d] that(4-) by auto
    from keep untag raw single show ?thesis by blast
  qed
qed

text \<open>The tag deletions of \<open>v1.0\<close>, \<open>v2.0\<close> and the raw digest of \<open>D3\<close> on the store.\<close>

lemma tag_plan_without_keep:
  "processTagDeletions plainRuntime testEnv storeT (tagConfig None)
      [''sha256:d1'', ''sha256:d2'', ''sha256:d3''] [] =
   Inr (\<lparr>deleteSet = [''sha256:d2'', ''sha256:d3''],
         untagOperations = [(''sha256:d1'', [''v1.0''])]\<rparr>, [''sha256:d1''])"
  by (simp add: fixture_defs tag_defs)

lemma tag_plan_with_keep:
  "processTagDeletions plainRuntime testEnv storeT (tagConfig (Some 5))
      [''sha256:d1'', ''sha256:d2'', ''sha256:d3''] [] =
   Inr (\<lparr>deleteSet = [], untagOperations = [(''sha256:d1'', [''v1.0''])]\<rparr>,
        [''sha256:d1'', ''sha256:d2'', ''sha256:d3''])"
  by (simp add: fixture_defs tag_defs)

lemma tag_plan_matches:
  "expandTags plainRuntime testEnv storeT (tagConfig keep)
      [''sha256:d1'', ''sha256:d2'', ''sha256:d3''] = Inr [''v1.0'', ''v2.0'', ''sha256:d3'']"
  by (simp add: fixture_defs tag_defs)

text \<open>
  Claim C8. Let \<open>processTagDeletions\<close> return a plan, and let the tag selector expand to
  \<open>matchTags\<close>. When \<open>keepNtagged\<close> is set, the delete-set of the plan is empty and the
  candidate set is unchanged. In either case every matched, non-excluded tag of a
  package with more than one tag is recorded in the untag operations under the digest
  of that package. When \<open>keepNtagged\<close> is not set, every matched, non-excluded raw digest,
  and the digest of every matched, non-excluded tag whose package has exactly one tag,
  is in the delete-set and no longer in the candidate set.
\<close>

theorem processTagDeletions_defers_to_keepNtagged:
  "processTagDeletions rt env w cfg fs ex = Inr (pl, fs')
     \<and> expandTags rt env w cfg fs = Inr matchTags \<longrightarrow>
   (keepNtagged cfg \<noteq> None \<longrightarrow> deleteSet pl = [] \<and> fs' = fs)
   \<and> (\<forall>t \<in> set matchTags. t \<notin> set ex \<longrightarrow>
        (\<not> prefix ''sha256:'' t \<longrightarrow>
           (\<forall>d p. getDigestByTag env w t = Some d \<and> d \<noteq> []
                  \<and> getPackageByDigest env w d = Some p \<and> 1 < length (tags p) \<longrightarrow>
                  (\<exists>tgs. (d, tgs) \<in> set (untagOperations pl) \<and> t \<in> set tgs)))
      \<and> (keepNtagged cfg = None \<longrightarrow>
            (prefix ''sha256:'' t \<longrightarrow> t \<in> set (deleteSet pl) \<and> t \<notin> set fs')
          \<and> (\<not> prefix ''sha256:'' t \<longrightarrow>
               (\<forall>d p. getDigestByTag env w t = Some d \<and> d \<noteq> []
                      \<and> getPackageByDigest env w d = Some p \<and> length (tags p) = 1 \<longrightarrow>
                      d \<in> set (deleteSet pl) \<and> d \<notin> set fs'))))"
  using processTagDeletions_main[of rt env w cfg fs ex pl fs' matchTags] by blast

theorem processTagDeletions_defers_to_keepNtagged_witness:
  "(\<exists>pl fs'. processTagDeletions plainRuntime testEnv storeT (tagConfig (Some 5))
                [''sha256:d1'', ''sha256:d2'', ''sha256:d3''] [] = Inr (pl, fs')
       \<and> deleteSet pl = [] \<and> fs' = [''sha256:d1'', ''sha256:d2'', ''sha256:d3'']
       \<and> (\<exists>tgs. (''sha256:d1'', tgs) \<in> set (untagOperations pl) \<and> ''v1.0'' \<in> set tgs))
   \<and> (\<exists>pl fs'. processTagDeletions plainRuntime testEnv storeT (tagConfig None)
                [''sha256:d1'', ''sha256:d2'', ''sha256:d3''] [] = Inr (pl, fs')
       \<and> ''sha256:d2'' \<in> set (deleteSet pl) \<and> ''sha256:d2'' \<notin> set fs'
       \<and> ''sha256:d3'' \<in> set (deleteSet pl) \<and> ''sha256:d3'' \<notin> set fs')"
proof -
  let ?fs = "[''sha256:d1'', ''sha256:d2'', ''sha256:d3'']"
  obtain plK fsK where runK:
    "processTagDeletions plainRuntime testEnv storeT (tagConfig (Some 5)) ?fs [] = Inr (plK, fsK)"
    using tag_plan_with_keep by blast
  obtain plN fsN where runN:
    "processTagDeletions plainRuntime testEnv storeT (tagConfig None) ?fs [] = Inr (plN, fsN)"
    using tag_plan_without_keep by blast
  have keepK: "keepNtagged (tagConfig (Some 5)) \<noteq> None"
    and keepN: "keepNtagged (tagConfig None) = None"
    by (simp_all add: tagConfig_def)
  have v1: "''v1.0'' \<in> set [''v1.0'', ''v2.0'', ''sha256:d3'']" "\<not> prefix ''sha256:'' ''v1.0''"
    "getDigestByTag testEnv storeT ''v1.0'' = Some ''sha256:d1''"
    "getPackageByDigest testEnv storeT ''sha256:d1'' = Some pkgD1" "1 < length (tags pkgD1)"
    by (simp_all add: fixture_defs tag_defs)
  have v2: "''v2.0'' \<in> set [''v1.0'', ''v2.0'', ''sha256:d3'']" "\<not> prefix ''sha256:'' ''v2.0''"
    "getDigestByTag testEnv storeT ''v2.0'' = Some ''sha256:d2''"
    "getPackageByDigest testEnv storeT ''sha256:d2'' = Some pkgD2" "length (tags pkgD2) = 1"
    by (simp_all add: fixture_defs tag_defs)
  have d3: "''sha256:d3'' \<in> set [''v1.0'', ''v2.0'', ''sha256:d3'']"
    "prefix ''sha256:'' ''sha256:d3''"
    by simp_all
  note K = processTagDeletions_defers_to_keepNtagged[rule_format,
      OF conjI[OF runK tag_plan_matches]]
  note N = processTagDeletions_defers_to_keepNtagged[rule_format,
      OF conjI[OF runN tag_plan_matches]]
  have "deleteSet plK = [] \<and> fsK = ?fs" using K keepK by blast
  moreover have "\<exists>tgs. (''sha256:d1'', tgs) \<in> set (untagOperations plK) \<and> ''v1.0'' \<in> set tgs"
    using K v1 by fastforce
  moreover have "''sha256:d2'' \<in> set (deleteSet plN) \<and> ''sha256:d2'' \<notin> set fsN"
    using N keepN v2 by fastforce
  moreover have "''sha256:d3'' \<in> set (deleteSet plN) \<and> ''sha256:d3'' \<notin> set fsN"
    using N keepN d3 by fastforce
  ultimately show ?thesis using runK runN by blast
qed

subsection \<open>Image Filter: age\<close>

lemmas age_defs = pkgOld_def pkgEdge_def pkgUndated_def storeAge_def ageConfig_def
  hugeAgeConfig_def plainRuntime_def applyAgeFilter_def ageStep_def timeClip_def js_delete_def

text \<open>
  The loop only removes digests; it never removes one whose package has no
  \<open>updated_at\<close>; and it does not throw when every digest has a package.
\<close>

lemma ageStep_shrinks:
  "set (snd (ageStep rt env w older i d cur)) \<subseteq> set cur"
  by (auto simp: ageStep_def js_delete_def Let_def split: option.splits)

lemma ageLoop_shrinks:
  "set (snd (ageLoop rt env w older i xs cur)) \<subseteq> set cur"
proof (induction xs arbitrary: i cur)
  case Nil
  then show ?case by simp
next
  case (Cons x xs)
  obtain r c1 where s: "ageStep rt env w older i x cur = (r, c1)"
    by (cases "ageStep rt env w older i x cur")
  with ageStep_shrinks[of rt env w older i x cur] have c1: "set c1 \<subseteq> set cur" by simp
  show ?case
  proof (cases r)
    case (Inl e)
    with s c1 show ?thesis by simp
  next
    case (Inr u)
    with s Cons.IH[of "Suc i" c1] c1 show ?thesis by auto
  qed
qed

lemma ageStep_keeps_undated:
  assumes "d \<in> set cur"
    "\<not> (\<exists>p s. getPackageByDigest env w d = Some p \<and> updated_at p = Some s \<and> s \<noteq> [])"
  shows "d \<in> set (snd (ageStep rt env w older i x cur))"
  using assms
  by (auto simp: ageStep_def js_delete_def Let_def split: option.splits)

lemma ageLoop_keeps_undated:
  assumes "\<not> (\<exists>p s. getPackageByDigest env w d = Some p \<and> updated_at p = Some s \<and> s \<noteq> [])"
  shows "d \<in> set cur \<Longrightarrow> d \<in> set (snd (ageLoop rt env w older i xs cur))"
proof (induction xs arbitrary: i cur)
  case Nil
  then show ?case by simp
next
  case (Cons x xs)
  obtain r c1 where s: "ageStep rt env w older i x cur = (r, c1)"
    by (cases "ageStep rt env w older i x cur")
  with ageStep_keeps_undated[OF Cons.prems assms, of rt older i x] have c1: "d \<in> set c1" by simp
  show ?case
  proof (cases r)
    case (Inl e)
    with s c1 show ?thesis by simp
  next
    case (Inr u)
    with s Cons.IH[OF c1, of "Suc i"] show ?thesis by simp
  qed
qed

lemma applyAgeFilter_keeps_undated:
  assumes "d \<in> set fs"
    "\<not> (\<exists>p s. getPackageByDigest env w d = Some p \<and> updated_at p = Some s \<and> s \<noteq> [])"
  shows "d \<in> set (snd (applyAgeFilter rt env w cfg fs))"
  using assms ageLoop_keeps_undated[OF assms(2,1)]
  by (simp add: applyAgeFilter_def split: option.splits)

lemma ageStep_ok:
  "getPackageByDigest env w x \<noteq> None \<Longrightarrow> fst (ageStep rt env w older i x cur) = Inr ()"
  by (auto simp: ageStep_def Let_def split: option.splits)

lemma ageLoop_ok:
  "(\<forall>x \<in> set xs. getPackageByDigest env w x \<noteq> None) \<Longrightarrow>
   fst (ageLoop rt env w older i xs cur) = Inr ()"
proof (induction xs arbitrary: i cur)
  case Nil
  then show ?case by simp
next
  case (Cons x xs)
  obtain r c1 where s: "ageStep rt env w older i x cur = (r, c1)"
    by (cases "ageStep rt env w older i x cur")
  with ageStep_ok[of env w x rt older i cur] Cons.prems have "r = Inr ()" by simp
  with s Cons show ?case by simp
qed

lemma ageLoop_removes_at_cutoff:
  assumes present: "\<forall>x \<in> set xs. getPackageByDigest env w x \<noteq> None"
    and k: "k < length xs"
    and p: "getPackageByDigest env w (xs ! k) = Some p" "updated_at p = Some s" "s \<noteq> []"
    and at: "timeClip (dateNow rt (i + k) - older) = Some c" "dateParse rt s = Some c"
  shows "xs ! k \<notin> set (snd (ageLoop rt env w older i xs cur))"
  using present k p(1) at(1)
proof (induction xs arbitrary: i k cur)
  case Nil
  then show ?case by simp
next
  case (Cons x xs)
  show ?case
  proof (cases k)
    case 0
    with Cons.prems p(2,3) at(2)
    have "ageStep rt env w older i x cur = (Inr (), js_delete x cur)"
      by (simp add: ageStep_def)
    with ageLoop_shrinks[of rt env w older "Suc i" xs "js_delete x cur"] 0
    show ?thesis by (auto simp: js_delete_def)
  next
    case (Suc j)
    obtain r c1 where s: "ageStep rt env w older i x cur = (r, c1)"
      by (cases "ageStep rt env w older i x cur")
    with ageStep_ok[of env w x rt older i cur] Cons.prems(1) have r: "r = Inr ()" by simp
    from Cons.prems Suc have "xs ! j \<notin> set (snd (ageLoop rt env w older (Suc i) xs c1))"
      by (intro Cons.IH) auto
    with s r Suc show ?thesis by simp
  qed
qed

lemma ageStep_invalid_cutoff:
  "timeClip (dateNow rt i - older) = None \<Longrightarrow> snd (ageStep rt env w older i x cur) = cur"
  by (auto simp: ageStep_def Let_def split: option.splits)

lemma ageLoop_invalid_cutoff:
  assumes "\<forall>i. timeClip (dateNow rt i - older) = None"
  shows "snd (ageLoop rt env w older i xs cur) = cur"
proof (induction xs arbitrary: i)
  case Nil
  then show ?case by simp
next
  case (Cons x xs)
  obtain r c1 where s: "ageStep rt env w older i x cur = (r, c1)"
    by (cases "ageStep rt env w older i x cur")
  with ageStep_invalid_cutoff[of rt i older env w x cur] assms have "c1 = cur" by simp
  with s Cons.IH[of "Suc i"] show ?case by (cases r) simp_all
qed

lemma age_run:
  "applyAgeFilter plainRuntime testEnv storeAge ageConfig
      [''sha256:old'', ''sha256:edge'', ''sha256:undated''] =
   (Inr (), [''sha256:old'', ''sha256:undated''])"
  by (simp add: fixture_defs age_defs)

lemma age_run_huge:
  "applyAgeFilter plainRuntime testEnv storeAge hugeAgeConfig
      [''sha256:old'', ''sha256:edge'', ''sha256:undated''] =
   (Inr (), [''sha256:old'', ''sha256:edge'', ''sha256:undated''])"
  by (simp add: fixture_defs age_defs)

text \<open>
  Claim C10. A digest of the candidate set whose package record has no \<open>updated_at\<close>
  is still in the candidate set after \<open>applyAgeFilter\<close>, whatever the configured age
  limit (and whether or not the pass ends in an exception); a digest that the filter
  removed has a package record with an \<open>updated_at\<close>. When an age limit is configured
  and every digest of the candidate set has a package record, a package whose
  \<open>updated_at\<close> is exactly the cutoff instant, the date built from the clock reading
  taken for it minus the age limit, is removed from the candidate set. When the age
  limit is so large that no cutoff is a valid date, nothing is removed.
\<close>

theorem applyAgeFilter_undated_kept_cutoff_removed:
  "(d \<in> set fs \<and> getPackageByDigest env w d = Some p
      \<and> (updated_at p = None \<or> updated_at p = Some []) \<longrightarrow>
      d \<in> set (snd (applyAgeFilter rt env w cfg fs)))
   \<and> (d \<in> set fs \<and> d \<notin> set (snd (applyAgeFilter rt env w cfg fs)) \<longrightarrow>
        (\<exists>p' s'. getPackageByDigest env w d = Some p' \<and> updated_at p' = Some s' \<and> s' \<noteq> []))
   \<and> (olderThan cfg = Some older \<and> older \<noteq> 0
        \<and> (\<forall>x \<in> set fs. getPackageByDigest env w x \<noteq> None)
        \<and> k < length fs \<and> getPackageByDigest env w (fs ! k) = Some q
        \<and> updated_at q = Some s \<and> s \<noteq> []
        \<and> timeClip (dateNow rt k - older) = Some c \<and> dateParse rt s = Some c \<longrightarrow>
        fs ! k \<notin> set (snd (applyAgeFilter rt env w cfg fs))
        \<and> fst (applyAgeFilter rt env w cfg fs) = Inr ())
   \<and> (olderThan cfg = Some older \<and> (\<forall>i. timeClip (dateNow rt i - older) = None) \<longrightarrow>
        snd (applyAgeFilter rt env w cfg fs) = fs)"
proof -
  have kept: "d \<in> set (snd (applyAgeFilter rt env w cfg fs))"
    if a: "d \<in> set fs \<and> getPackageByDigest env w d = Some p
      \<and> (updated_at p = None \<or> updated_at p = Some [])"
    using a applyAgeFilter_keeps_undated[of d fs env w rt cfg] by auto
  have dated: "\<exists>p' s'. getPackageByDigest env w d = Some p' \<and> updated_at p' = Some s' \<and> s' \<noteq> []"
    if c: "d \<in> set fs \<and> d \<notin> set (snd (applyAgeFilter rt env w cfg fs))"
    using c applyAgeFilter_keeps_undated[of d fs env w rt cfg] by blast
  have removed: "fs ! k \<notin> set (snd (applyAgeFilter rt env w cfg fs))
        \<and> fst (applyAgeFilter rt env w cfg fs) = Inr ()"
    if b: "olderThan cfg = Some older \<and> older \<noteq> 0
        \<and> (\<forall>x \<in> set fs. getPackageByDigest env w x \<noteq> None)
        \<and> k < length fs \<and> getPackageByDigest env w (fs ! k) = Some q
        \<and> updated_at q = Some s \<and> s \<noteq> []
        \<and> timeClip (dateNow rt k - older) = Some c \<and> dateParse rt s = Some c"
  proof -
    from b have run: "applyAgeFilter rt env w cfg fs = ageLoop rt env w older 0 fs fs"
      by (simp add: applyAgeFilter_def)
    from b have "fs ! k \<notin> set (snd (ageLoop rt env w older 0 fs fs))"
      using ageLoop_removes_at_cutoff[of fs env w k q s rt 0 older c fs] by simp
    moreover from b have "fst (ageLoop rt env w older 0 fs fs) = Inr ()"
      using ageLoop_ok[of fs env w rt older 0 fs] by blast
    ultimately show ?thesis using run by simp
  qed
  have invalid: "snd (applyAgeFilter rt env w cfg fs) = fs"
    if e: "olderThan cfg = Some older \<and> (\<forall>i. timeClip (dateNow rt i - older) = None)"
    using e ageLoop_invalid_cutoff[of rt older env w 0 fs fs]
    by (simp add: applyAgeFilter_def)
  from kept dated removed invalid show ?thesis by blast
qed

theorem applyAgeFilter_undated_kept_cutoff_removed_witness:
  "getPackageByDigest testEnv storeAge ''sha256:undated'' = Some pkgUndated
   \<and> updated_at pkgUndated = None
   \<and> ''sha256:undated'' \<in> set (snd (applyAgeFilter plainRuntime testEnv storeAge ageConfig
          [''sha256:old'', ''sha256:edge'', ''sha256:undated'']))
   \<and> getPackageByDigest testEnv storeAge ''sha256:edge'' = Some pkgEdge
   \<and> timeClip (dateNow plainRuntime 1 - 1000) = Some 4000
   \<and> dateParse plainRuntime ''1970-01-01T00:00:04Z'' = Some 4000
   \<and> ''sha256:edge'' \<notin> set (snd (applyAgeFilter plainRuntime testEnv storeAge ageConfig
          [''sha256:old'', ''sha256:edge'', ''sha256:undated'']))
   \<and> fst (applyAgeFilter plainRuntime testEnv storeAge ageConfig
          [''sha256:old'', ''sha256:edge'', ''sha256:undated'']) = Inr ()
   \<and> timeClip (5000 - 10000000000000000) = None
   \<and> snd (applyAgeFilter plainRuntime testEnv storeAge hugeAgeConfig
          [''sha256:old'', ''sha256:edge'', ''sha256:undated'']) =
       [''sha256:old'', ''sha256:edge'', ''sha256:undated'']"
proof -
  let ?fs = "[''sha256:old'', ''sha256:edge'', ''sha256:undated'']"
  have u: "''sha256:undated'' \<in> set ?fs"
    "getPackageByDigest testEnv storeAge ''sha256:undated'' = Some pkgUndated"
    "updated_at pkgUndated = None"
    by (simp_all add: fixture_defs age_defs)
  have e: "olderThan ageConfig = Some 1000" "(1000::int) \<noteq> 0"
    "\<forall>x \<in> set ?fs. getPackageByDigest testEnv storeAge x \<noteq> None"
    "1 < length ?fs" "getPackageByDigest testEnv storeAge (?fs ! 1) = Some pkgEdge"
    "updated_at pkgEdge = Some ''1970-01-01T00:00:04Z''" "''1970-01-01T00:00:04Z'' \<noteq> []"
    "timeClip (dateNow plainRuntime 1 - 1000) = Some 4000"
    "dateParse plainRuntime ''1970-01-01T00:00:04Z'' = Some 4000"
    by (simp_all add: fixture_defs age_defs)
  have h: "olderThan hugeAgeConfig = Some 10000000000000000"
    "\<forall>i. timeClip (dateNow plainRuntime i - 10000000000000000) = None"
    "timeClip (5000 - 10000000000000000) = None"
    by (simp_all add: age_defs)
  note main = applyAgeFilter_undated_kept_cutoff_removed
  from main[of "''sha256:undated''" ?fs testEnv storeAge pkgUndated plainRuntime ageConfig,
            THEN conjunct1] u
  have 1: "''sha256:undated'' \<in> set (snd (applyAgeFilter plainRuntime testEnv storeAge ageConfig ?fs))"
    by blast
  from main[of _ ?fs testEnv storeAge _ plainRuntime ageConfig 1000 1 pkgEdge
               "''1970-01-01T00:00:04Z''" 4000, THEN conjunct2, THEN conjunct2, THEN conjunct1] e
  have 2: "?fs ! 1 \<notin> set (snd (applyAgeFilter plainRuntime testEnv storeAge ageConfig ?fs))
        \<and> fst (applyAgeFilter plainRuntime testEnv storeAge ageConfig ?fs) = Inr ()"
    by blast
  from main[of _ ?fs testEnv storeAge _ plainRuntime hugeAgeConfig 10000000000000000,
            THEN conjunct2, THEN conjunct2, THEN conjunct2] h
  have 3: "snd (applyAgeFilter plainRuntime testEnv storeAge hugeAgeConfig ?fs) = ?fs"
    by blast
  have "?fs ! 1 = ''sha256:edge''" by simp
  with 1 2 3 u e h show ?thesis by simp
qed

end
